theory Spec2Isabelle
  imports Complex_Main "HOL-Library.Multiset"
begin

section \<open>Data model of the prototype (demos/prototype/main.go)\<close>

text \<open>
  The Go structs are records, the enumerations are datatypes. Go's \<open>int\<close> is modelled
  by \<open>int\<close>: the integers of the program are grid coordinates, tick counters and the
  resource and kill counters, and they stay far below \<open>2^63\<close>. Lemma
  \<open>reachable_bounds\<close> at the end bounds the counters of the game in every
  reachable state; the cooldown of a tower and the lifetime of a laser are set to a
  constant and counted down; \<open>findPath\<close> adds 1 or -1 to a coordinate and then only
  goes on with cells inside the grid. \<open>PathIndex\<close> is only ever set to 1 and
  incremented, so it is a \<open>nat\<close>. \<open>float64\<close> positions and health are modelled
  by \<open>real\<close>; no statement below depends on the rounding of a floating-point
  operation.
\<close>

datatype GameState = StatePlaying | StateWon | StateLost

datatype Point = Point (X: int) (Y: int)

text \<open>The field \<open>index\<close> of \<open>pqItem\<close> is written by \<open>Swap\<close>, \<open>Push\<close> and \<open>Pop\<close> and
  never read; it is left out.\<close>

record pqItem =
  point :: Point
  priority :: int

type_synonym priorityQueue = "pqItem list"

datatype TileType = TileEmpty | TileGround | TileWall | TileBase | TileSpawn | TileTower

definition GridWidth :: int where "GridWidth = 20"
definition GridHeight :: int where "GridHeight = 15"
definition CellSize :: int where "CellSize = 40"
definition EnemySpeed :: real where "EnemySpeed = 2"
definition SpawnInterval :: int where "SpawnInterval = 40"
definition EnemyMaxHP :: real where "EnemyMaxHP = 100"
definition TowerRange :: real where "TowerRange = 120"
definition TowerDamage :: real where "TowerDamage = 10"
definition TowerCooldown :: int where "TowerCooldown = 30"
definition LaserDuration :: int where "LaserDuration = 5"
definition TotalWaves :: int where "TotalWaves = 5"
definition EnemiesPerWave :: int where "EnemiesPerWave = 5"
definition WaveDelay :: int where "WaveDelay = 180"
definition StartingResource :: int where "StartingResource = 100"
definition TowerCost :: int where "TowerCost = 25"
definition KillReward :: int where "KillReward = 10"

record Enemy =
  X :: real
  Y :: real
  PathIndex :: nat
  Path :: "Point list"
  HP :: real

record Tower =
  X :: int
  Y :: int
  Cooldown :: int

record Laser =
  FromX :: real
  FromY :: real
  ToX :: real
  ToY :: real
  TTL :: int

text \<open>
  \<open>grid g y x\<close> is \<open>g.grid[y][x]\<close>. The array has the cells \<open>0 \<le> x < 20\<close>,
  \<open>0 \<le> y < 15\<close>; the source never indexes outside them (\<open>isWalkable\<close> and \<open>Update\<close>
  test the bounds first). A nil slice \<open>g.path\<close> is \<open>None\<close>.
\<close>

record Game =
  grid :: "int \<Rightarrow> int \<Rightarrow> TileType"
  hoverX :: int
  hoverY :: int
  hoverValid :: bool
  spawn :: Point
  base :: Point
  path :: "Point list option"
  pathBlocked :: bool
  enemies :: "Enemy list"
  spawnTimer :: int
  towers :: "Tower list"
  lasers :: "Laser list"
  state :: GameState
  resources :: int
  currentWave :: int
  enemiesThisWave :: int
  waveDelay :: int
  totalKills :: int

text \<open>What \<open>Update\<close> reads from the engine in one tick: the R key, the cursor position
  in pixels and the two mouse buttons.\<close>

record Input =
  keyR :: bool
  cursorX :: int
  cursorY :: int
  mouseLeft :: bool
  mouseRight :: bool

section \<open>The priority queue and Go's container/heap\<close>

definition Less :: "priorityQueue \<Rightarrow> nat \<Rightarrow> nat \<Rightarrow> bool" where
  "Less pq i j = (priority (pq ! i) < priority (pq ! j))"

definition Swap :: "priorityQueue \<Rightarrow> nat \<Rightarrow> nat \<Rightarrow> priorityQueue" where
  "Swap pq i j = pq[i := pq ! j, j := pq ! i]"

definition pq_Push :: "priorityQueue \<Rightarrow> pqItem \<Rightarrow> priorityQueue" where
  "pq_Push pq item = pq @ [item]"

definition pq_Pop :: "priorityQueue \<Rightarrow> pqItem \<times> priorityQueue" where
  "pq_Pop old = (last old, butlast old)"

text \<open>
  \<open>heap.up\<close>, \<open>heap.down\<close>, \<open>heap.Init\<close>, \<open>heap.Push\<close> and \<open>heap.Pop\<close> of the Go
  standard library, which \<open>findPath\<close> calls. In \<open>up\<close>, Go computes the parent as
  \<open>(j - 1) / 2\<close>, which is 0 for \<open>j = 0\<close> (division truncates), as on \<open>nat\<close>.
\<close>

function heap_up :: "priorityQueue \<Rightarrow> nat \<Rightarrow> priorityQueue" where
  "heap_up h j =
     (let i = (j - 1) div 2 in
      if i = j \<or> \<not> Less h j i then h else heap_up (Swap h i j) i)"
  by pat_completeness auto
termination
  by (relation "measure (\<lambda>(h, j). j)") auto

function heap_down :: "priorityQueue \<Rightarrow> nat \<Rightarrow> nat \<Rightarrow> priorityQueue" where
  "heap_down h i n =
     (let j1 = 2 * i + 1 in
      if j1 \<ge> n then h
      else
        let j = (if j1 + 1 < n \<and> Less h (j1 + 1) j1 then j1 + 1 else j1) in
        if \<not> Less h j i then h else heap_down (Swap h i j) j n)"
  by pat_completeness auto
termination
  by (relation "measure (\<lambda>(h, i, n). n - i)") (auto split: if_splits)

declare heap_up.simps [simp del] heap_down.simps [simp del]

definition heap_Init :: "priorityQueue \<Rightarrow> priorityQueue" where
  "heap_Init h = (let n = length h in foldl (\<lambda>h' i. heap_down h' i n) h (rev [0 ..< n div 2]))"

definition heap_Push :: "priorityQueue \<Rightarrow> pqItem \<Rightarrow> priorityQueue" where
  "heap_Push h x = (let h' = pq_Push h x in heap_up h' (length h' - 1))"

definition heap_Pop :: "priorityQueue \<Rightarrow> pqItem \<times> priorityQueue" where
  "heap_Pop h =
     (let n = length h - 1;
          h1 = Swap h 0 n;
          h2 = heap_down h1 0 n
      in pq_Pop h2)"

section \<open>Pathfinding\<close>

definition isWalkable :: "Game \<Rightarrow> int \<Rightarrow> int \<Rightarrow> bool" where
  "isWalkable g x y =
     (if x < 0 \<or> x \<ge> GridWidth \<or> y < 0 \<or> y \<ge> GridHeight then False
      else let tile = grid g y x in tile = TileGround \<or> tile = TileSpawn \<or> tile = TileBase)"

definition heuristic :: "Point \<Rightarrow> Point \<Rightarrow> int" where
  "heuristic a b =
     (let dx = Point.X a - Point.X b;
          dy = Point.Y a - Point.Y b;
          dx = (if dx < 0 then - dx else dx);
          dy = (if dy < 0 then - dy else dy)
      in dx + dy)"

text \<open>The three locals of \<open>findPath\<close> that the loop changes. Reading a missing key of a
  Go map gives the zero value: 0 for \<open>gScore\<close>, the point (0,0) for \<open>cameFrom\<close>.\<close>

record astar =
  openSet :: priorityQueue
  cameFrom :: "Point \<rightharpoonup> Point"
  gScore :: "Point \<rightharpoonup> int"

definition dirs :: "Point list" where
  "dirs = [Point 0 (- 1), Point 0 1, Point (- 1) 0, Point 1 0]"

text \<open>The body of the loop over \<open>dirs\<close>, for one direction \<open>d\<close>.\<close>

definition visit :: "Game \<Rightarrow> Point \<Rightarrow> Point \<Rightarrow> astar \<Rightarrow> Point \<Rightarrow> astar" where
  "visit g goal current st d =
     (let neighbor = Point (Point.X current + Point.X d) (Point.Y current + Point.Y d) in
      if \<not> isWalkable g (Point.X neighbor) (Point.Y neighbor) then st
      else
        let tentativeG = (case gScore st current of None \<Rightarrow> 0 | Some v \<Rightarrow> v) + 1;
            improved = st\<lparr>cameFrom := (cameFrom st)(neighbor \<mapsto> current),
                          gScore := (gScore st)(neighbor \<mapsto> tentativeG),
                          openSet := heap_Push (openSet st)
                            \<lparr>point = neighbor, priority = tentativeG + heuristic neighbor goal\<rparr>\<rparr>
        in (case gScore st neighbor of
              None \<Rightarrow> improved
            | Some oldG \<Rightarrow> if tentativeG < oldG then improved else st))"

text \<open>The reconstruction loop \<open>for current != start\<close>. It may run forever (a chain of
  \<open>cameFrom\<close> that misses \<open>start\<close>), so it is a partial function: \<open>None\<close> is "does
  not return".\<close>

partial_function (option) reconstruct ::
  "(Point \<rightharpoonup> Point) \<Rightarrow> Point \<Rightarrow> Point \<Rightarrow> Point list \<Rightarrow> Point list option" where
  "reconstruct cf start current acc =
     (if current \<noteq> start then
        (let c = (case cf current of None \<Rightarrow> Point 0 0 | Some p \<Rightarrow> p)
         in reconstruct cf start c (c # acc))
      else Some acc)"

text \<open>The main loop \<open>for openSet.Len() > 0\<close>. The result \<open>Some None\<close> is the nil
  slice ("no path found"), \<open>Some (Some p)\<close> a path, \<open>None\<close> "does not return".\<close>

partial_function (option) search ::
  "Game \<Rightarrow> Point \<Rightarrow> Point \<Rightarrow> astar \<Rightarrow> Point list option option" where
  "search g start goal st =
     (if length (openSet st) > 0 then
        (case heap_Pop (openSet st) of
           (item, rest) \<Rightarrow>
             let current = point item in
             if current = goal then
               Option.bind (reconstruct (cameFrom st) start current [current])
                 (\<lambda>p. Some (Some p))
             else search g start goal (foldl (visit g goal current) (st\<lparr>openSet := rest\<rparr>) dirs))
      else Some None)"

declare reconstruct.simps [code] search.simps [code]

definition findPath :: "Game \<Rightarrow> Point \<Rightarrow> Point \<Rightarrow> Point list option option" where
  "findPath g start goal =
     search g start goal
       \<lparr>openSet = heap_Push (heap_Init []) \<lparr>point = start, priority = 0\<rparr>,
        cameFrom = Map.empty,
        gScore = [start \<mapsto> 0]\<rparr>"

section \<open>The game\<close>

text \<open>Go's integer division truncates toward zero, and so does the conversion of a
  \<open>float64\<close> to \<open>int\<close>.\<close>

definition go_div :: "int \<Rightarrow> int \<Rightarrow> int" where
  "go_div a b = sgn a * sgn b * (\<bar>a\<bar> div \<bar>b\<bar>)"

definition float_to_int :: "real \<Rightarrow> int" where
  "float_to_int x = (if x \<ge> 0 then \<lfloor>x\<rfloor> else \<lceil>x\<rceil>)"

text \<open>The pixel centre of a grid coordinate: \<open>float64(c*CellSize) + CellSize/2\<close>, where
  \<open>CellSize/2\<close> is the constant 20.\<close>

definition cellCenter :: "int \<Rightarrow> real" where
  "cellCenter c = real_of_int (c * CellSize) + real_of_int (CellSize div 2)"

definition recalculatePath :: "Game \<Rightarrow> Game option" where
  "recalculatePath g =
     Option.bind (findPath g (spawn g) (base g))
       (\<lambda>p. Some (g\<lparr>path := p, pathBlocked := (p = None)\<rparr>))"

text \<open>The body of the loop of \<open>recalculateEnemyPaths\<close> for one enemy.\<close>

definition recalculateEnemyPath :: "Game \<Rightarrow> Enemy \<Rightarrow> Enemy option" where
  "recalculateEnemyPath g e =
     (let gridX = go_div (float_to_int (Enemy.X e)) CellSize;
          gridY = go_div (float_to_int (Enemy.Y e)) CellSize;
          currentCell = Point gridX gridY
      in Option.bind (findPath g currentCell (base g))
           (\<lambda>newPath. case newPath of
                          Some p \<Rightarrow> Some (e\<lparr>Path := p, PathIndex := 1\<rparr>)
                        | None \<Rightarrow> Some e))"

fun recalculateEnemyPaths_loop :: "Game \<Rightarrow> Enemy list \<Rightarrow> Enemy list option" where
  "recalculateEnemyPaths_loop g [] = Some []"
| "recalculateEnemyPaths_loop g (e # es) =
     Option.bind (recalculateEnemyPath g e)
       (\<lambda>e'. Option.bind (recalculateEnemyPaths_loop g es) (\<lambda>es'. Some (e' # es')))"

definition recalculateEnemyPaths :: "Game \<Rightarrow> Game option" where
  "recalculateEnemyPaths g =
     Option.bind (recalculateEnemyPaths_loop g (enemies g)) (\<lambda>es. Some (g\<lparr>enemies := es\<rparr>))"

text \<open>
  The layout that \<open>NewGame\<close> writes, cell by cell. The assignments in their order:
  ground everywhere, walls on the four edges, the base at (10,13), the spawn at (10,1),
  interior walls at columns 5 and 14 for rows 3 to 7; a later assignment wins.
\<close>

definition NewGame_grid :: "int \<Rightarrow> int \<Rightarrow> TileType" where
  "NewGame_grid y x =
     (if x < 0 \<or> x \<ge> GridWidth \<or> y < 0 \<or> y \<ge> GridHeight then TileEmpty
      else if (x = 5 \<or> x = 14) \<and> 3 \<le> y \<and> y < 8 then TileWall
      else if x = GridWidth div 2 \<and> y = 1 then TileSpawn
      else if x = GridWidth div 2 \<and> y = GridHeight - 2 then TileBase
      else if y = 0 \<or> y = GridHeight - 1 \<or> x = 0 \<or> x = GridWidth - 1 then TileWall
      else TileGround)"

definition NewGame :: "Game option" where
  "NewGame =
     (let g = \<lparr>grid = NewGame_grid, hoverX = 0, hoverY = 0, hoverValid = False,
               spawn = Point (GridWidth div 2) 1,
               base = Point (GridWidth div 2) (GridHeight - 2),
               path = None, pathBlocked = False, enemies = [], spawnTimer = 0,
               towers = [], lasers = [], state = StatePlaying, resources = 0,
               currentWave = 0, enemiesThisWave = 0, waveDelay = 0, totalKills = 0\<rparr>
      in Option.bind (recalculatePath g)
           (\<lambda>g. Some (g\<lparr>state := StatePlaying, resources := StartingResource,
                          currentWave := 1, enemiesThisWave := EnemiesPerWave,
                          waveDelay := 300\<rparr>)))"

definition spawnEnemy :: "Game \<Rightarrow> Game" where
  "spawnEnemy g =
     (if pathBlocked g \<or> (case path g of None \<Rightarrow> True | Some p \<Rightarrow> length p = 0) then g
      else
        let pathCopy = the (path g);
            e = \<lparr>Enemy.X = cellCenter (Point.X (spawn g)),
                 Enemy.Y = cellCenter (Point.Y (spawn g)),
                 PathIndex = 1, Path = pathCopy, HP = EnemyMaxHP\<rparr>
        in g\<lparr>enemies := enemies g @ [e]\<rparr>)"

text \<open>\<open>addTower\<close> returns its boolean together with the game.\<close>

definition addTower :: "int \<Rightarrow> int \<Rightarrow> Game \<Rightarrow> bool \<times> Game" where
  "addTower x y g =
     (if resources g < TowerCost then (False, g)
      else (True, g\<lparr>resources := resources g - TowerCost,
                     grid := (grid g)(y := (grid g y)(x := TileTower)),
                     towers := towers g @ [\<lparr>Tower.X = x, Tower.Y = y, Cooldown = 0\<rparr>]\<rparr>))"

text \<open>The loop of \<open>removeTower\<close>: drop the first tower at (x, y).\<close>

fun removeTower_loop :: "int \<Rightarrow> int \<Rightarrow> Tower list \<Rightarrow> Tower list" where
  "removeTower_loop x y [] = []"
| "removeTower_loop x y (t # ts) =
     (if Tower.X t = x \<and> Tower.Y t = y then ts else t # removeTower_loop x y ts)"

definition removeTower :: "int \<Rightarrow> int \<Rightarrow> Game \<Rightarrow> Game" where
  "removeTower x y g =
     g\<lparr>grid := (grid g)(y := (grid g y)(x := TileGround)),
       resources := resources g + TowerCost div 2,
       towers := removeTower_loop x y (towers g)\<rparr>"

text \<open>The movement of one enemy that is alive and has not reached the end of its path
  (the rest of the loop body of \<open>updateEnemies\<close>).\<close>

definition moveEnemy :: "Enemy \<Rightarrow> Enemy" where
  "moveEnemy e =
     (let target = Path e ! PathIndex e;
          targetX = cellCenter (Point.X target);
          targetY = cellCenter (Point.Y target);
          dx = targetX - Enemy.X e;
          dy = targetY - Enemy.Y e;
          dist = sqrt (dx * dx + dy * dy)
      in if dist < EnemySpeed
         then e\<lparr>Enemy.X := targetX, Enemy.Y := targetY, PathIndex := PathIndex e + 1\<rparr>
         else e\<lparr>Enemy.X := Enemy.X e + (dx / dist) * EnemySpeed,
                 Enemy.Y := Enemy.Y e + (dy / dist) * EnemySpeed\<rparr>)"

text \<open>The loop of \<open>updateEnemies\<close> over the enemies left to visit, with the game
  and the slice \<open>alive\<close> built so far.\<close>

fun updateEnemies_loop :: "Enemy list \<Rightarrow> Game \<Rightarrow> Enemy list \<Rightarrow> Game \<times> Enemy list" where
  "updateEnemies_loop [] g alive = (g, alive)"
| "updateEnemies_loop (e # es) g alive =
     (if HP e \<le> 0 then
        updateEnemies_loop es
          (g\<lparr>resources := resources g + KillReward, totalKills := totalKills g + 1\<rparr>) alive
      else if PathIndex e \<ge> length (Path e) then
        updateEnemies_loop es (g\<lparr>state := StateLost\<rparr>) alive
      else updateEnemies_loop es g (alive @ [moveEnemy e]))"

definition updateEnemies :: "Game \<Rightarrow> Game" where
  "updateEnemies g =
     (case updateEnemies_loop (enemies g) g [] of (g', alive) \<Rightarrow> g'\<lparr>enemies := alive\<rparr>)"

text \<open>The target search of one tower: the loop over the enemies with the locals
  \<open>target\<close> (the index of the enemy pointed to, \<open>None\<close> for nil) and \<open>bestProgress\<close>.\<close>

fun findTarget :: "real \<Rightarrow> real \<Rightarrow> Enemy list \<Rightarrow> nat \<Rightarrow> nat option \<Rightarrow> int \<Rightarrow> nat option" where
  "findTarget towerX towerY [] i target bestProgress = target"
| "findTarget towerX towerY (e # es) i target bestProgress =
     (if HP e \<le> 0 then findTarget towerX towerY es (Suc i) target bestProgress
      else
        let dx = Enemy.X e - towerX;
            dy = Enemy.Y e - towerY;
            dist = sqrt (dx * dx + dy * dy)
        in if dist > TowerRange then findTarget towerX towerY es (Suc i) target bestProgress
           else if int (PathIndex e) > bestProgress
             then findTarget towerX towerY es (Suc i) (Some i) (int (PathIndex e))
             else findTarget towerX towerY es (Suc i) target bestProgress)"

text \<open>The loop body of \<open>updateTowers\<close> for one tower: the tower after the tick and the
  game with the enemy hit and the laser added.\<close>

definition updateTower :: "Tower \<Rightarrow> Game \<Rightarrow> Tower \<times> Game" where
  "updateTower t g =
     (if Cooldown t > 0 then (t\<lparr>Cooldown := Cooldown t - 1\<rparr>, g)
      else
        let towerX = cellCenter (Tower.X t);
            towerY = cellCenter (Tower.Y t)
        in (case findTarget towerX towerY (enemies g) 0 None (- 1) of
              None \<Rightarrow> (t, g)
            | Some i \<Rightarrow>
                let target = enemies g ! i;
                    target' = target\<lparr>HP := HP target - TowerDamage\<rparr>
                in (t\<lparr>Cooldown := TowerCooldown\<rparr>,
                    g\<lparr>enemies := (enemies g)[i := target'],
                      lasers := lasers g @
                        [\<lparr>FromX = towerX, FromY = towerY,
                          ToX = Enemy.X target', ToY = Enemy.Y target',
                          TTL = LaserDuration\<rparr>]\<rparr>)))"

fun updateTowers_loop :: "Tower list \<Rightarrow> Game \<Rightarrow> Tower list \<times> Game" where
  "updateTowers_loop [] g = ([], g)"
| "updateTowers_loop (t # ts) g =
     (case updateTower t g of
        (t', g') \<Rightarrow> (case updateTowers_loop ts g' of (ts', g'') \<Rightarrow> (t' # ts', g'')))"

definition updateTowers :: "Game \<Rightarrow> Game" where
  "updateTowers g = (case updateTowers_loop (towers g) g of (ts, g') \<Rightarrow> g'\<lparr>towers := ts\<rparr>)"

definition updateLasers :: "Game \<Rightarrow> Game" where
  "updateLasers g =
     g\<lparr>lasers := filter (\<lambda>l. TTL l > 0) (map (\<lambda>l. l\<lparr>TTL := TTL l - 1\<rparr>) (lasers g))\<rparr>"

text \<open>The first block of \<open>Update\<close> in the playing state: the wave spawning logic.\<close>

definition Update_waves :: "Game \<Rightarrow> Game" where
  "Update_waves g =
     (if waveDelay g > 0 then g\<lparr>waveDelay := waveDelay g - 1\<rparr>
      else if enemiesThisWave g > 0 then
        (let g1 = g\<lparr>spawnTimer := spawnTimer g - 1\<rparr> in
         if spawnTimer g1 \<le> 0 then
           (let g2 = spawnEnemy g1;
                g3 = g2\<lparr>enemiesThisWave := enemiesThisWave g2 - 1\<rparr>
            in g3\<lparr>spawnTimer := SpawnInterval\<rparr>)
         else g1)
      else if length (enemies g) = 0 then
        (if currentWave g \<ge> TotalWaves then g\<lparr>state := StateWon\<rparr>
         else
           (let g1 = g\<lparr>currentWave := currentWave g + 1\<rparr>;
                g2 = g1\<lparr>enemiesThisWave := EnemiesPerWave + currentWave g1\<rparr>
            in g2\<lparr>waveDelay := WaveDelay\<rparr>))
      else g)"

text \<open>The last block of \<open>Update\<close>: the cursor and the clicks.\<close>

definition Update_hover :: "Input \<Rightarrow> Game \<Rightarrow> Game" where
  "Update_hover inp g =
     (let gx = go_div (cursorX inp) CellSize;
          gy = go_div (cursorY inp) CellSize;
          g1 = g\<lparr>hoverValid := (gx \<ge> 0 \<and> gx < GridWidth \<and> gy \<ge> 0 \<and> gy < GridHeight)\<rparr>
      in if hoverValid g1 then g1\<lparr>hoverX := gx, hoverY := gy\<rparr> else g1)"

definition Update_clicks :: "Input \<Rightarrow> Game \<Rightarrow> Game option" where
  "Update_clicks inp g =
     (if hoverValid g \<and> state g = StatePlaying then
        (let tile = grid g (hoverY g) (hoverX g);
             (g1, gridChanged1) =
               (if mouseLeft inp \<and> tile = TileGround then
                  (case addTower (hoverX g) (hoverY g) g of (ok, g') \<Rightarrow> (g', ok))
                else (g, False));
             (g2, gridChanged2) =
               (if mouseRight inp \<and> tile = TileTower then
                  (removeTower (hoverX g1) (hoverY g1) g1, True)
                else (g1, gridChanged1))
         in if gridChanged2 then Option.bind (recalculatePath g2) recalculateEnemyPaths
            else Some g2)
      else Some g)"

text \<open>\<open>Update\<close>: one tick. \<open>None\<close> is "does not return"; the error result of the
  source is always nil and is left out.\<close>

definition Update :: "Input \<Rightarrow> Game \<Rightarrow> Game option" where
  "Update inp g =
     (if state g \<noteq> StatePlaying then (if keyR inp then NewGame else Some g)
      else Update_clicks inp
             (Update_hover inp (updateLasers (updateTowers (updateEnemies (Update_waves g))))))"

section \<open>Fixtures\<close>

text \<open>The grid of the scenario "open ground everywhere except a bordering wall ring,
  spawn at (10,1), base at (10,13)" (the layout of \<open>NewGame\<close> without its interior
  walls), and a game around a given grid with the spawn and the base where \<open>NewGame\<close>
  puts them and every other field at Go's zero value.\<close>

definition ringGrid :: "int \<Rightarrow> int \<Rightarrow> TileType" where
  "ringGrid y x =
     (if x < 0 \<or> x \<ge> GridWidth \<or> y < 0 \<or> y \<ge> GridHeight then TileEmpty
      else if x = GridWidth div 2 \<and> y = 1 then TileSpawn
      else if x = GridWidth div 2 \<and> y = GridHeight - 2 then TileBase
      else if y = 0 \<or> y = GridHeight - 1 \<or> x = 0 \<or> x = GridWidth - 1 then TileWall
      else TileGround)"

definition gameOn :: "(int \<Rightarrow> int \<Rightarrow> TileType) \<Rightarrow> Game" where
  "gameOn gr =
     \<lparr>grid = gr, hoverX = 0, hoverY = 0, hoverValid = False,
      spawn = Point (GridWidth div 2) 1,
      base = Point (GridWidth div 2) (GridHeight - 2),
      path = None, pathBlocked = False, enemies = [], spawnTimer = 0,
      towers = [], lasers = [], state = StatePlaying, resources = 0,
      currentWave = 0, enemiesThisWave = 0, waveDelay = 0, totalKills = 0\<rparr>"

section \<open>The binary heap of container/heap\<close>

text \<open>The heap order on the first \<open>n\<close> items of the slice, with the parent of
  item \<open>k\<close> at \<open>(k - 1) div 2\<close>.\<close>

definition heap_upto :: "nat \<Rightarrow> priorityQueue \<Rightarrow> bool" where
  "heap_upto n h = (\<forall>k. 0 < k \<and> k < n \<longrightarrow> priority (h ! ((k - 1) div 2)) \<le> priority (h ! k))"

definition is_heap :: "priorityQueue \<Rightarrow> bool" where
  "is_heap h = heap_upto (length h) h"

lemma length_Swap [simp]: "length (Swap h i j) = length h"
  by (simp add: Swap_def)

lemma mset_Swap: "i < length h \<Longrightarrow> j < length h \<Longrightarrow> mset (Swap h i j) = mset h"
  unfolding Swap_def by (metis mset_swap)

lemma nth_Swap:
  "i < length h \<Longrightarrow> j < length h \<Longrightarrow>
     Swap h i j ! k = (if k = j then h ! i else if k = i then h ! j else h ! k)"
  by (auto simp: Swap_def nth_list_update)

lemma length_heap_up [simp]: "length (heap_up h j) = length h"
proof (induction h j rule: heap_up.induct)
  case (1 h j)
  show ?case
    by (subst heap_up.simps) (use 1 in \<open>auto simp: Let_def\<close>)
qed

lemma mset_heap_up: "j < length h \<Longrightarrow> mset (heap_up h j) = mset h"
proof (induction h j rule: heap_up.induct)
  case (1 h j)
  let ?i = "(j - 1) div 2"
  show ?case
  proof (cases "?i = j \<or> \<not> Less h j ?i")
    case True
    then show ?thesis by (subst heap_up.simps) (auto simp: Let_def)
  next
    case False
    have lt: "?i < length h" using "1.prems" by auto
    have "mset (heap_up (Swap h ?i j) ?i) = mset (Swap h ?i j)"
      using "1.IH" [OF refl False] lt by simp
    also have "\<dots> = mset h" using lt "1.prems" by (simp add: mset_Swap)
    finally show ?thesis using False by (subst heap_up.simps) (auto simp: Let_def)
  qed
qed

lemma length_heap_down [simp]: "length (heap_down h i n) = length h"
proof (induction h i n rule: heap_down.induct)
  case (1 h i n)
  show ?case
    by (subst heap_down.simps) (use 1 in \<open>auto simp: Let_def\<close>)
qed

lemma mset_heap_down: "n \<le> length h \<Longrightarrow> i < n \<Longrightarrow> mset (heap_down h i n) = mset h"
proof (induction h i n rule: heap_down.induct)
  case (1 h i n)
  let ?j1 = "2 * i + 1"
  let ?j = "if ?j1 + 1 < n \<and> Less h (?j1 + 1) ?j1 then ?j1 + 1 else ?j1"
  show ?case
  proof (cases "?j1 \<ge> n \<or> \<not> Less h ?j i")
    case True
    then show ?thesis by (subst heap_down.simps) (auto simp: Let_def)
  next
    case False
    then have jn: "?j < n" by (auto split: if_splits)
    have "mset (heap_down (Swap h i ?j) ?j n) = mset (Swap h i ?j)"
      using "1.IH" [OF refl _ refl] False jn "1.prems" by auto
    also have "\<dots> = mset h" using jn "1.prems" by (simp add: mset_Swap)
    finally show ?thesis using False by (subst heap_down.simps) (auto simp: Let_def)
  qed
qed

lemma nth_heap_down_above: "n \<le> length h \<Longrightarrow> i < n \<Longrightarrow> n \<le> k \<Longrightarrow> heap_down h i n ! k = h ! k"
proof (induction h i n rule: heap_down.induct)
  case (1 h i n)
  let ?j1 = "2 * i + 1"
  let ?j = "if ?j1 + 1 < n \<and> Less h (?j1 + 1) ?j1 then ?j1 + 1 else ?j1"
  show ?case
  proof (cases "?j1 \<ge> n \<or> \<not> Less h ?j i")
    case True
    then show ?thesis by (subst heap_down.simps) (auto simp: Let_def)
  next
    case False
    then have jn: "?j < n" by (auto split: if_splits)
    have "heap_down (Swap h i ?j) ?j n ! k = Swap h i ?j ! k"
      using "1.IH" [OF refl _ refl] False jn "1.prems" by auto
    also have "\<dots> = h ! k" using jn "1.prems" by (simp add: nth_Swap)
    finally show ?thesis using False by (subst heap_down.simps) (auto simp: Let_def)
  qed
qed


definition parent :: "nat \<Rightarrow> nat" where
  "parent k = (k - 1) div 2"

lemma parent_children: "0 < k \<Longrightarrow> (parent k = i) = (k = 2 * i + 1 \<or> k = 2 * i + 2)"
  unfolding parent_def by (cases k) auto

lemma parent_less: "0 < k \<Longrightarrow> parent k < k"
  unfolding parent_def by (cases k) auto

lemma parent_0 [simp]: "parent 0 = 0"
  by (simp add: parent_def)

lemma heap_upto_parent:
  "heap_upto n h = (\<forall>k. 0 < k \<and> k < n \<longrightarrow> priority (h ! parent k) \<le> priority (h ! k))"
  by (simp add: heap_upto_def parent_def)

lemma heap_up_unfold:
  "heap_up h j =
     (if parent j = j \<or> \<not> Less h j (parent j) then h
      else heap_up (Swap h (parent j) j) (parent j))"
  by (subst heap_up.simps) (simp add: Let_def parent_def)

definition up_inv :: "priorityQueue \<Rightarrow> nat \<Rightarrow> bool" where
  "up_inv h j =
     ((\<forall>k. 0 < k \<and> k < length h \<and> k \<noteq> j \<longrightarrow> priority (h ! parent k) \<le> priority (h ! k))
      \<and> (\<forall>k. 0 < k \<and> k < length h \<and> parent k = j \<and> 0 < j \<longrightarrow>
             priority (h ! parent j) \<le> priority (h ! k)))"

lemma up_inv_step:
  assumes j: "j < length h" and inv: "up_inv h j"
    and ij: "parent j \<noteq> j" and less: "Less h j (parent j)"
  shows "up_inv (Swap h (parent j) j) (parent j)"
proof -
  define i where "i = parent j"
  define h' where "h' = Swap h i j"
  have j0: "0 < j" using ij by (cases j) auto
  have ilt: "i < j" unfolding i_def using j0 by (rule parent_less)
  have il: "i < length h" using ilt j by simp
  have lt: "priority (h ! j) < priority (h ! i)" using less by (simp add: Less_def i_def)
  have A: "\<And>k. 0 < k \<Longrightarrow> k < length h \<Longrightarrow> k \<noteq> j \<Longrightarrow> priority (h ! parent k) \<le> priority (h ! k)"
    using inv by (simp add: up_inv_def)
  have B: "\<And>k. 0 < k \<Longrightarrow> k < length h \<Longrightarrow> parent k = j \<Longrightarrow>
             priority (h ! i) \<le> priority (h ! k)"
    using inv j0 by (simp add: up_inv_def i_def)
  have nth: "\<And>k. h' ! k = (if k = j then h ! i else if k = i then h ! j else h ! k)"
    unfolding h'_def using il j by (simp add: nth_Swap)
  have a: "priority (h' ! parent k) \<le> priority (h' ! k)"
    if k: "0 < k" "k < length h" "k \<noteq> i" for k
  proof (cases "k = j")
    case True
    then show ?thesis using lt ilt by (simp add: nth i_def [symmetric])
  next
    case False
    have pk: "parent k < k" using k(1) by (rule parent_less)
    show ?thesis
    proof (cases "parent k = i")
      case True
      have "priority (h ! i) \<le> priority (h ! k)" using A [OF k(1) k(2) False] True by simp
      then show ?thesis using True False k(3) lt ilt by (simp add: nth)
    next
      case F2: False
      show ?thesis
      proof (cases "parent k = j")
        case True
        then show ?thesis using B [OF k(1) k(2) True] False k(3) by (simp add: nth)
      next
        case F3: False
        then show ?thesis using A [OF k(1) k(2) False] False k(3) F2 by (simp add: nth)
      qed
    qed
  qed
  have b: "priority (h' ! parent i) \<le> priority (h' ! k)"
    if k: "0 < k" "k < length h" "parent k = i" "0 < i" for k
  proof -
    have pi: "parent i < i" using k(4) by (rule parent_less)
    have 1: "priority (h ! parent i) \<le> priority (h ! i)"
      using A [OF k(4) il] ilt by simp
    have ki: "k \<noteq> i" using parent_less [OF k(1)] k(3) by simp
    have 2: "h' ! parent i = h ! parent i"
      using pi ilt by (simp add: nth)
    show ?thesis
    proof (cases "k = j")
      case True
      then show ?thesis using 1 2 by (simp add: nth)
    next
      case False
      have "priority (h ! i) \<le> priority (h ! k)" using A [OF k(1) k(2) False] k(3) by simp
      then show ?thesis using 1 2 False ki by (simp add: nth)
    qed
  qed
  have "up_inv h' i"
    unfolding up_inv_def using a b by (simp add: h'_def)
  then show ?thesis by (simp add: h'_def i_def)
qed

lemma heap_up_heap: "j < length h \<Longrightarrow> up_inv h j \<Longrightarrow> is_heap (heap_up h j)"
proof (induction h j rule: heap_up.induct)
  case (1 h j)
  show ?case
  proof (cases "parent j = j \<or> \<not> Less h j (parent j)")
    case True
    have "is_heap h"
      unfolding is_heap_def heap_upto_parent
    proof (intro allI impI)
      fix k assume k: "0 < k \<and> k < length h"
      show "priority (h ! parent k) \<le> priority (h ! k)"
      proof (cases "k = j")
        case False
        then show ?thesis using "1.prems"(2) k by (simp add: up_inv_def)
      next
        case kj: True
        then have "parent j \<noteq> j" using k parent_less [of j] by simp
        then have "\<not> Less h j (parent j)" using True by simp
        then show ?thesis using kj by (simp add: Less_def)
      qed
    qed
    then show ?thesis using True by (subst heap_up_unfold) simp
  next
    case False
    then have ij: "parent j \<noteq> j" and less: "Less h j (parent j)" by auto
    have j0: "0 < j" using ij by (cases j) auto
    have il: "parent j < length h" using parent_less [OF j0] "1.prems"(1) by simp
    have "up_inv (Swap h (parent j) j) (parent j)"
      using up_inv_step [OF "1.prems"(1) "1.prems"(2) ij less] .
    then have "is_heap (heap_up (Swap h (parent j) j) (parent j))"
      using "1.IH" [of "parent j"] False il by (simp add: parent_def)
    then show ?thesis using False by (subst heap_up_unfold) simp
  qed
qed

lemma is_heap_Push: assumes "is_heap h" shows "is_heap (heap_Push h x)"
proof -
  have "up_inv (h @ [x]) (length h)"
    unfolding up_inv_def
  proof (intro conjI allI impI)
    fix k assume k: "0 < k \<and> k < length (h @ [x]) \<and> k \<noteq> length h"
    then have kl: "k < length h" by simp
    then have "parent k < length h" using parent_less [of k] k by simp
    then show "priority ((h @ [x]) ! parent k) \<le> priority ((h @ [x]) ! k)"
      using assms k kl by (simp add: is_heap_def heap_upto_parent nth_append)
  next
    fix k assume k: "0 < k \<and> k < length (h @ [x]) \<and> parent k = length h \<and> 0 < length h"
    then have "parent k < k" using parent_less [of k] by simp
    then have False using k by simp
    then show "priority ((h @ [x]) ! parent (length h)) \<le> priority ((h @ [x]) ! k)" ..
  qed
  then show ?thesis
    using heap_up_heap [of "length h" "h @ [x]"] by (simp add: heap_Push_def pq_Push_def)
qed

lemma mset_heap_Push: "mset (heap_Push h x) = add_mset x (mset h)"
  by (simp add: heap_Push_def pq_Push_def mset_heap_up)

definition down_inv :: "nat \<Rightarrow> priorityQueue \<Rightarrow> nat \<Rightarrow> bool" where
  "down_inv n h i =
     ((\<forall>k. 0 < k \<and> k < n \<and> parent k \<noteq> i \<longrightarrow> priority (h ! parent k) \<le> priority (h ! k))
      \<and> (\<forall>k. 0 < k \<and> k < n \<and> parent k = i \<and> 0 < i \<longrightarrow>
             priority (h ! parent i) \<le> priority (h ! k)))"

text \<open>The child that \<open>down\<close> compares with the node.\<close>

definition minChild :: "priorityQueue \<Rightarrow> nat \<Rightarrow> nat \<Rightarrow> nat" where
  "minChild h i n = (if 2 * i + 1 + 1 < n \<and> Less h (2 * i + 1 + 1) (2 * i + 1) then 2 * i + 1 + 1 else 2 * i + 1)"

lemma heap_down_unfold:
  "heap_down h i n =
     (if 2 * i + 1 \<ge> n \<or> \<not> Less h (minChild h i n) i then h
      else heap_down (Swap h i (minChild h i n)) (minChild h i n) n)"
  by (subst heap_down.simps) (simp add: Let_def minChild_def)

lemma minChild_props:
  assumes "2 * i + 1 < n"
  shows "minChild h i n < n" "parent (minChild h i n) = i" "i < minChild h i n"
    "\<And>k. 0 < k \<Longrightarrow> k < n \<Longrightarrow> parent k = i \<Longrightarrow> priority (h ! minChild h i n) \<le> priority (h ! k)"
proof -
  show "minChild h i n < n" using assms by (simp add: minChild_def)
  show "parent (minChild h i n) = i" by (simp add: minChild_def parent_def)
  show "i < minChild h i n" by (simp add: minChild_def)
  fix k assume k: "0 < k" "k < n" "parent k = i"
  then have "k = 2 * i + 1 \<or> k = 2 * i + 2" using parent_children [of k i] by simp
  then show "priority (h ! minChild h i n) \<le> priority (h ! k)"
    using k(2) by (auto simp: minChild_def Less_def)
qed

lemma down_inv_step:
  assumes n: "n \<le> length h" and inv: "down_inv n h i"
    and c: "2 * i + 1 < n" and less: "Less h (minChild h i n) i"
  shows "down_inv n (Swap h i (minChild h i n)) (minChild h i n)"
proof -
  define j where "j = minChild h i n"
  define h' where "h' = Swap h i j"
  have jn: "j < n" and pj: "parent j = i" and ij: "i < j"
    and jmin: "\<And>k. 0 < k \<Longrightarrow> k < n \<Longrightarrow> parent k = i \<Longrightarrow> priority (h ! j) \<le> priority (h ! k)"
    unfolding j_def using minChild_props [OF c] by blast+
  have j0: "0 < j" using ij by simp
  have lt: "priority (h ! j) < priority (h ! i)" using less by (simp add: Less_def j_def)
  have A: "\<And>k. 0 < k \<Longrightarrow> k < n \<Longrightarrow> parent k \<noteq> i \<Longrightarrow> priority (h ! parent k) \<le> priority (h ! k)"
    using inv by (simp add: down_inv_def)
  have B: "\<And>k. 0 < k \<Longrightarrow> k < n \<Longrightarrow> parent k = i \<Longrightarrow> 0 < i \<Longrightarrow>
             priority (h ! parent i) \<le> priority (h ! k)"
    using inv by (simp add: down_inv_def)
  have nth: "\<And>k. h' ! k = (if k = j then h ! i else if k = i then h ! j else h ! k)"
    unfolding h'_def using ij jn n by (simp add: nth_Swap)
  have a: "priority (h' ! parent k) \<le> priority (h' ! k)"
    if k: "0 < k" "k < n" "parent k \<noteq> j" for k
  proof (cases "k = j")
    case True
    then show ?thesis using lt ij pj by (simp add: nth)
  next
    case False
    have pk: "parent k < k" using k(1) by (rule parent_less)
    show ?thesis
    proof (cases "k = i")
      case True
      have pi: "parent i \<noteq> i" "parent i \<noteq> j" using pk True ij by auto
      have "priority (h ! parent i) \<le> priority (h ! j)"
        using B [OF j0 jn pj] k(1) True by simp
      then show ?thesis using True pi ij by (simp add: nth)
    next
      case ki: False
      show ?thesis
      proof (cases "parent k = i")
        case True
        have "priority (h ! j) \<le> priority (h ! k)" using jmin [OF k(1) k(2) True] .
        then show ?thesis using True False ki ij by (simp add: nth)
      next
        case F3: False
        then show ?thesis using A [OF k(1) k(2) F3] False ki k(3) by (simp add: nth)
      qed
    qed
  qed
  have b: "priority (h' ! parent j) \<le> priority (h' ! k)"
    if k: "0 < k" "k < n" "parent k = j" for k
  proof -
    have kj: "j < k" using parent_less [OF k(1)] k(3) by simp
    have "parent k \<noteq> i" using k(3) ij by simp
    then have "priority (h ! j) \<le> priority (h ! k)" using A [OF k(1) k(2)] k(3) by simp
    then show ?thesis using kj ij pj by (simp add: nth)
  qed
  have "down_inv n h' j"
    unfolding down_inv_def using a b by simp
  then show ?thesis by (simp add: h'_def j_def)
qed

lemma heap_down_heap:
  "n \<le> length h \<Longrightarrow> down_inv n h i \<Longrightarrow> heap_upto n (heap_down h i n)"
proof (induction h i n rule: heap_down.induct)
  case (1 h i n)
  show ?case
  proof (cases "2 * i + 1 \<ge> n \<or> \<not> Less h (minChild h i n) i")
    case True
    have "heap_upto n h"
      unfolding heap_upto_parent
    proof (intro allI impI)
      fix k assume k: "0 < k \<and> k < n"
      show "priority (h ! parent k) \<le> priority (h ! k)"
      proof (cases "parent k = i")
        case False
        then show ?thesis using "1.prems"(2) k by (simp add: down_inv_def)
      next
        case pk: True
        then have kk: "k = 2 * i + 1 \<or> k = 2 * i + 2" using parent_children [of k i] k by simp
        then have c: "2 * i + 1 < n" using k by auto
        then have "\<not> Less h (minChild h i n) i" using True by simp
        then have "priority (h ! i) \<le> priority (h ! minChild h i n)" by (simp add: Less_def)
        also have "\<dots> \<le> priority (h ! k)" using minChild_props(4) [OF c] k pk by simp
        finally show ?thesis using pk by simp
      qed
    qed
    then show ?thesis using True by (subst heap_down_unfold) simp
  next
    case False
    then have c: "2 * i + 1 < n" and less: "Less h (minChild h i n) i" by auto
    have "down_inv n (Swap h i (minChild h i n)) (minChild h i n)"
      using down_inv_step [OF "1.prems"(1) "1.prems"(2) c less] .
    moreover have "heap_down (Swap h i (minChild h i n)) (minChild h i n) n =
        heap_down (Swap h i (if 2 * i + 1 + 1 < n \<and> Less h (2 * i + 1 + 1) (2 * i + 1) then 2 * i + 1 + 1 else 2 * i + 1))
          (if 2 * i + 1 + 1 < n \<and> Less h (2 * i + 1 + 1) (2 * i + 1) then 2 * i + 1 + 1 else 2 * i + 1) n"
      by (simp add: minChild_def)
    ultimately have "heap_upto n (heap_down (Swap h i (minChild h i n)) (minChild h i n) n)"
      using "1.IH" [OF refl _ refl] False "1.prems"(1) by (simp add: minChild_def)
    then show ?thesis using False by (subst heap_down_unfold) simp
  qed
qed

lemma is_heap_min:
  assumes "is_heap h" "k < length h"
  shows "priority (h ! 0) \<le> priority (h ! k)"
  using assms(2)
proof (induction k rule: less_induct)
  case (less k)
  show ?case
  proof (cases "k = 0")
    case True
    then show ?thesis by simp
  next
    case False
    then have k0: "0 < k" by simp
    have pk: "parent k < k" using k0 by (rule parent_less)
    have "priority (h ! 0) \<le> priority (h ! parent k)"
      using less.IH [OF pk] pk less.prems by simp
    also have "\<dots> \<le> priority (h ! k)"
      using assms(1) k0 less.prems by (simp add: is_heap_def heap_upto_parent)
    finally show ?thesis .
  qed
qed

lemma heap_Pop_props:
  assumes hp: "is_heap h" and ne: "h \<noteq> []"
  shows "\<exists>rest. heap_Pop h = (h ! 0, rest)
           \<and> add_mset (h ! 0) (mset rest) = mset h
           \<and> is_heap rest
           \<and> (\<forall>x \<in> set h. priority (h ! 0) \<le> priority x)"
proof -
  define n where "n = length h - 1"
  define h1 where "h1 = Swap h 0 n"
  define h2 where "h2 = heap_down h1 0 n"
  have len: "length h = Suc n" using ne by (simp add: n_def)
  have pop: "heap_Pop h = (last h2, butlast h2)"
    by (simp add: heap_Pop_def pq_Pop_def Let_def h2_def h1_def n_def)
  have l2: "length h2 = Suc n" by (simp add: h2_def h1_def len)
  have nth1: "\<And>k. h1 ! k = (if k = n then h ! 0 else if k = 0 then h ! n else h ! k)"
    unfolding h1_def using len by (simp add: nth_Swap)
  have m1: "mset h1 = mset h" unfolding h1_def using len by (simp add: mset_Swap)
  have h2n: "h2 ! n = h ! 0"
  proof (cases "n = 0")
    case True
    then show ?thesis by (simp add: h2_def heap_down_unfold nth1)
  next
    case False
    then have "h2 ! n = h1 ! n"
      unfolding h2_def using len by (intro nth_heap_down_above) (simp_all add: h1_def)
    then show ?thesis by (simp add: nth1)
  qed
  have m2: "mset h2 = mset h"
  proof (cases "n = 0")
    case True
    then show ?thesis using m1 by (simp add: h2_def heap_down_unfold)
  next
    case False
    then have "mset h2 = mset h1"
      unfolding h2_def using len by (intro mset_heap_down) (simp_all add: h1_def)
    then show ?thesis using m1 by simp
  qed
  have h2ne: "h2 \<noteq> []" using l2 by auto
  have last: "last h2 = h ! 0"
    using h2n l2 h2ne by (simp add: last_conv_nth)
  have "mset h2 = mset (butlast h2 @ [last h2])" using h2ne by simp
  then have ms: "add_mset (h ! 0) (mset (butlast h2)) = mset h"
    using m2 last by simp
  have dinv: "down_inv n h1 0"
    unfolding down_inv_def
  proof (intro conjI allI impI)
    fix k assume k: "0 < k \<and> k < n \<and> parent k \<noteq> 0"
    then have pk: "parent k < k" using parent_less by simp
    have "priority (h ! parent k) \<le> priority (h ! k)"
      using hp k len by (simp add: is_heap_def heap_upto_parent)
    then show "priority (h1 ! parent k) \<le> priority (h1 ! k)"
      using k pk by (simp add: nth1)
  next
    fix k assume "0 < k \<and> k < n \<and> parent k = 0 \<and> (0::nat) < 0"
    then show "priority (h1 ! parent 0) \<le> priority (h1 ! k)" by simp
  qed
  have "heap_upto n h2"
    unfolding h2_def using dinv len by (intro heap_down_heap) (simp_all add: h1_def)
  then have hr: "is_heap (butlast h2)"
    unfolding is_heap_def heap_upto_parent
  proof (intro allI impI)
    fix k assume hu: "\<forall>k. 0 < k \<and> k < n \<longrightarrow> priority (h2 ! parent k) \<le> priority (h2 ! k)"
      and k: "0 < k \<and> k < length (butlast h2)"
    then have kn: "k < n" using l2 by simp
    have pk: "parent k < n" using parent_less [of k] k kn by simp
    show "priority (butlast h2 ! parent k) \<le> priority (butlast h2 ! k)"
      using hu k kn pk l2 by (simp add: nth_butlast)
  qed
  have mn: "\<forall>x \<in> set h. priority (h ! 0) \<le> priority x"
    using is_heap_min [OF hp] by (auto simp: in_set_conv_nth)
  show ?thesis using pop last ms hr mn by simp
qed

section \<open>Chains of cells\<close>

text \<open>
  Two cells are 4-adjacent when they differ by one in exactly one coordinate. A walk is
  a non-empty sequence of cells in which every cell after the first is 4-adjacent to the
  cell before it and walkable; the first cell, where the search starts, is not tested
  (\<open>findPath\<close> never tests its \<open>start\<close>). \<open>connects g s t c\<close>: the walk \<open>c\<close> leads
  from \<open>s\<close> to \<open>t\<close>.
\<close>

definition adjacent4 :: "Point \<Rightarrow> Point \<Rightarrow> bool" where
  "adjacent4 p q =
     ((Point.X q = Point.X p \<and> \<bar>Point.Y q - Point.Y p\<bar> = 1)
      \<or> (Point.Y q = Point.Y p \<and> \<bar>Point.X q - Point.X p\<bar> = 1))"

fun walk :: "Game \<Rightarrow> Point list \<Rightarrow> bool" where
  "walk g [] = False"
| "walk g [p] = True"
| "walk g (p # q # r) =
     (adjacent4 p q \<and> isWalkable g (Point.X q) (Point.Y q) \<and> walk g (q # r))"

definition connects :: "Game \<Rightarrow> Point \<Rightarrow> Point \<Rightarrow> Point list \<Rightarrow> bool" where
  "connects g s t c = (walk g c \<and> hd c = s \<and> last c = t)"

definition padd :: "Point \<Rightarrow> Point \<Rightarrow> Point" where
  "padd p d = Point (Point.X p + Point.X d) (Point.Y p + Point.Y d)"

lemma adjacent4_dirs: "adjacent4 p q = (\<exists>d \<in> set dirs. q = padd p d)"
proof
  assume a: "adjacent4 p q"
  obtain px py where p: "p = Point px py" by (cases p)
  obtain qx qy where q: "q = Point qx qy" by (cases q)
  from a have "(qx = px \<and> (qy = py - 1 \<or> qy = py + 1)) \<or> (qy = py \<and> (qx = px - 1 \<or> qx = px + 1))"
    unfolding adjacent4_def p q by auto
  then show "\<exists>d \<in> set dirs. q = padd p d"
    unfolding p q dirs_def padd_def by auto
next
  assume "\<exists>d \<in> set dirs. q = padd p d"
  then show "adjacent4 p q"
    unfolding dirs_def padd_def adjacent4_def by auto
qed

lemma padd_neq: "d \<in> set dirs \<Longrightarrow> padd p d \<noteq> p"
  unfolding dirs_def padd_def by (cases p) auto

lemma heuristic_abs: "heuristic a b = \<bar>Point.X a - Point.X b\<bar> + \<bar>Point.Y a - Point.Y b\<bar>"
  by (simp add: heuristic_def Let_def)

lemma heuristic_nonneg: "0 \<le> heuristic a b"
  by (simp add: heuristic_abs)

lemma heuristic_self [simp]: "heuristic a a = 0"
  by (simp add: heuristic_abs)

lemma heuristic_step: "adjacent4 p q \<Longrightarrow> heuristic p t \<le> heuristic q t + 1"
  unfolding heuristic_abs adjacent4_def by auto

lemma walk_nonempty: "walk g c \<Longrightarrow> c \<noteq> []"
  by (cases c) auto

lemma walk_snoc:
  "walk g c \<Longrightarrow> adjacent4 (last c) q \<Longrightarrow> isWalkable g (Point.X q) (Point.Y q) \<Longrightarrow> walk g (c @ [q])"
proof (induction g c rule: walk.induct)
  case (3 g p q' r)
  then show ?case by simp
qed simp_all

lemma walk_heuristic: "walk g c \<Longrightarrow> heuristic (hd c) (last c) \<le> int (length c) - 1"
proof (induction g c rule: walk.induct)
  case (3 g p q r)
  then have "heuristic q (last (q # r)) \<le> int (length (q # r)) - 1" by simp
  moreover have "heuristic p (last (q # r)) \<le> heuristic q (last (q # r)) + 1"
    using 3 by (intro heuristic_step) simp
  ultimately show ?case by simp
qed simp_all

lemma walk_tail_walkable:
  "walk g c \<Longrightarrow> \<forall>p \<in> set (tl c). isWalkable g (Point.X p) (Point.Y p)"
  by (induction g c rule: walk.induct) auto

lemma walk_adjacent:
  "walk g c \<Longrightarrow> Suc i < length c \<Longrightarrow> adjacent4 (c ! i) (c ! Suc i)"
proof (induction g c arbitrary: i rule: walk.induct)
  case (3 g p q r)
  then show ?case by (cases i) auto
qed simp_all

section \<open>The invariant of the search loop\<close>

definition pending :: "astar \<Rightarrow> Point \<Rightarrow> Point \<Rightarrow> int \<Rightarrow> bool" where
  "pending st goal u v =
     (\<exists>it \<in> set (openSet st). point it = u \<and> priority it \<le> v + heuristic u goal)"

definition relaxed_on :: "Game \<Rightarrow> astar \<Rightarrow> Point set \<Rightarrow> Point \<Rightarrow> int \<Rightarrow> bool" where
  "relaxed_on g st D u v =
     (\<forall>d \<in> D. isWalkable g (Point.X (padd u d)) (Point.Y (padd u d)) \<longrightarrow>
        (\<exists>w. gScore st (padd u d) = Some w \<and> w \<le> v + 1))"

definition base_inv :: "Game \<Rightarrow> Point \<Rightarrow> Point \<Rightarrow> astar \<Rightarrow> bool" where
  "base_inv g start goal st =
     (gScore st start = Some 0
      \<and> (\<forall>n v. gScore st n = Some v \<and> n \<noteq> start \<longrightarrow>
            isWalkable g (Point.X n) (Point.Y n)
            \<and> (\<exists>p u. cameFrom st n = Some p \<and> adjacent4 p n \<and> gScore st p = Some u \<and> u + 1 \<le> v))
      \<and> (\<forall>n v. gScore st n = Some v \<longrightarrow>
            0 \<le> v \<and> (\<exists>c. connects g start n c \<and> int (length c) = v + 1))
      \<and> (\<forall>it \<in> set (openSet st). \<exists>v. gScore st (point it) = Some v
            \<and> (v + heuristic (point it) goal \<le> priority it \<or> point it = start))
      \<and> is_heap (openSet st))"

definition visit_inv :: "Game \<Rightarrow> Point \<Rightarrow> Point \<Rightarrow> Point \<Rightarrow> Point set \<Rightarrow> astar \<Rightarrow> bool" where
  "visit_inv g start goal cur D st =
     (base_inv g start goal st \<and> cur \<noteq> goal \<and> gScore st cur \<noteq> None
      \<and> (\<forall>u v. gScore st u = Some v \<longrightarrow>
            pending st goal u v
            \<or> (u \<noteq> goal \<and> relaxed_on g st (set dirs) u v)
            \<or> (u = cur \<and> relaxed_on g st D u v)))"

definition astar_inv :: "Game \<Rightarrow> Point \<Rightarrow> Point \<Rightarrow> astar \<Rightarrow> bool" where
  "astar_inv g start goal st =
     (base_inv g start goal st
      \<and> (\<forall>u v. gScore st u = Some v \<longrightarrow>
            pending st goal u v \<or> (u \<noteq> goal \<and> relaxed_on g st (set dirs) u v)))"

text \<open>The update that \<open>visit\<close> makes when the neighbour is new or improved.\<close>

definition improve :: "astar \<Rightarrow> Point \<Rightarrow> Point \<Rightarrow> Point \<Rightarrow> int \<Rightarrow> astar" where
  "improve st goal cur q t =
     st\<lparr>cameFrom := (cameFrom st)(q \<mapsto> cur),
        gScore := (gScore st)(q \<mapsto> t),
        openSet := heap_Push (openSet st) \<lparr>point = q, priority = t + heuristic q goal\<rparr>\<rparr>"

lemma visit_cases:
  assumes "gScore st cur = Some vc"
  obtains (same) "visit g goal cur st d = st"
      "isWalkable g (Point.X (padd cur d)) (Point.Y (padd cur d)) \<longrightarrow>
         (\<exists>old. gScore st (padd cur d) = Some old \<and> old \<le> vc + 1)"
    | (impr) "visit g goal cur st d = improve st goal cur (padd cur d) (vc + 1)"
      "isWalkable g (Point.X (padd cur d)) (Point.Y (padd cur d))"
      "\<forall>old. gScore st (padd cur d) = Some old \<longrightarrow> vc + 1 < old"
proof (cases "isWalkable g (Point.X (padd cur d)) (Point.Y (padd cur d))")
  case False
  then have "visit g goal cur st d = st"
    by (simp add: visit_def padd_def Let_def)
  then show ?thesis using False same by simp
next
  case w: True
  show ?thesis
  proof (cases "gScore st (padd cur d)")
    case None
    then have "visit g goal cur st d = improve st goal cur (padd cur d) (vc + 1)"
      using w assms by (simp add: visit_def padd_def Let_def improve_def)
    then show ?thesis using impr w None by simp
  next
    case (Some old)
    show ?thesis
    proof (cases "vc + 1 < old")
      case True
      then have "visit g goal cur st d = improve st goal cur (padd cur d) (vc + 1)"
        using w assms Some by (simp add: visit_def padd_def Let_def improve_def)
      then show ?thesis using impr w Some True by simp
    next
      case False
      then have "visit g goal cur st d = st"
        using w assms Some by (simp add: visit_def padd_def Let_def)
      then show ?thesis using same Some False by simp
    qed
  qed
qed

lemma set_heap_Push: "set (heap_Push h x) = insert x (set h)"
proof -
  have "set_mset (mset (heap_Push h x)) = set_mset (add_mset x (mset h))"
    by (simp only: mset_heap_Push)
  then show ?thesis by simp
qed

lemma connects_snoc:
  "connects g s p c \<Longrightarrow> adjacent4 p q \<Longrightarrow> isWalkable g (Point.X q) (Point.Y q) \<Longrightarrow>
     connects g s q (c @ [q])"
  unfolding connects_def using walk_nonempty [of g c] by (auto simp: walk_snoc)

lemma base_inv_improve:
  assumes b: "base_inv g start goal st"
    and cur: "gScore st cur = Some vc"
    and adj: "adjacent4 cur q"
    and w: "isWalkable g (Point.X q) (Point.Y q)"
    and better: "\<forall>old. gScore st q = Some old \<longrightarrow> vc + 1 < old"
  shows "base_inv g start goal (improve st goal cur q (vc + 1))"
proof -
  let ?st = "improve st goal cur q (vc + 1)"
  have G: "gScore ?st = (gScore st)(q \<mapsto> vc + 1)"
    and C: "cameFrom ?st = (cameFrom st)(q \<mapsto> cur)"
    and H: "openSet ?st = heap_Push (openSet st) \<lparr>point = q, priority = vc + 1 + heuristic q goal\<rparr>"
    by (simp_all add: improve_def)
  have b1: "gScore st start = Some 0"
    and b2: "\<And>n v. gScore st n = Some v \<Longrightarrow> n \<noteq> start \<Longrightarrow>
            isWalkable g (Point.X n) (Point.Y n)
            \<and> (\<exists>p u. cameFrom st n = Some p \<and> adjacent4 p n \<and> gScore st p = Some u \<and> u + 1 \<le> v)"
    and b3: "\<And>n v. gScore st n = Some v \<Longrightarrow>
            0 \<le> v \<and> (\<exists>c. connects g start n c \<and> int (length c) = v + 1)"
    and b4: "\<And>it. it \<in> set (openSet st) \<Longrightarrow> \<exists>v. gScore st (point it) = Some v
            \<and> (v + heuristic (point it) goal \<le> priority it \<or> point it = start)"
    and b5: "is_heap (openSet st)"
    using b unfolding base_inv_def by blast+
  have vc0: "0 \<le> vc" using b3 [OF cur] by simp
  have qs: "q \<noteq> start" using better b1 vc0 by auto
  have qc: "q \<noteq> cur" using adj by (auto simp: adjacent4_def)
  have i1: "gScore ?st start = Some 0" using b1 qs by (simp add: G)
  have i2: "isWalkable g (Point.X n) (Point.Y n)
            \<and> (\<exists>p u. cameFrom ?st n = Some p \<and> adjacent4 p n \<and> gScore ?st p = Some u \<and> u + 1 \<le> v)"
    if n: "gScore ?st n = Some v" "n \<noteq> start" for n v
  proof (cases "n = q")
    case True
    then have "v = vc + 1" using n by (simp add: G)
    then show ?thesis using True w adj cur qc by (simp add: G C)
  next
    case False
    then have gn: "gScore st n = Some v" using n by (simp add: G)
    from b2 [OF gn n(2)] obtain p u where
      p: "cameFrom st n = Some p" "adjacent4 p n" "gScore st p = Some u" "u + 1 \<le> v"
      and wn: "isWalkable g (Point.X n) (Point.Y n)" by blast
    show ?thesis
    proof (cases "p = q")
      case True
      then have "vc + 1 < u" using better p(3) by simp
      then show ?thesis using wn p True False by (auto simp: G C)
    next
      case F: False
      then show ?thesis using wn p False by (auto simp: G C)
    qed
  qed
  have i3: "0 \<le> v \<and> (\<exists>c. connects g start n c \<and> int (length c) = v + 1)"
    if n: "gScore ?st n = Some v" for n v
  proof (cases "n = q")
    case True
    then have v: "v = vc + 1" using n by (simp add: G)
    from b3 [OF cur] obtain c where c: "connects g start cur c" "int (length c) = vc + 1" by blast
    have "connects g start q (c @ [q])" using connects_snoc [OF c(1) adj w] .
    moreover have "int (length (c @ [q])) = v + 1" using c(2) v by simp
    ultimately have "\<exists>c'. connects g start q c' \<and> int (length c') = v + 1" by blast
    then show ?thesis using v vc0 True by simp
  next
    case False
    then show ?thesis using b3 [of n v] n by (simp add: G)
  qed
  have i4: "\<exists>v. gScore ?st (point it) = Some v
            \<and> (v + heuristic (point it) goal \<le> priority it \<or> point it = start)"
    if it: "it \<in> set (openSet ?st)" for it
  proof -
    from it have "it = \<lparr>point = q, priority = vc + 1 + heuristic q goal\<rparr> \<or> it \<in> set (openSet st)"
      by (simp add: H set_heap_Push)
    then show ?thesis
    proof
      assume "it = \<lparr>point = q, priority = vc + 1 + heuristic q goal\<rparr>"
      then show ?thesis by (simp add: G)
    next
      assume old: "it \<in> set (openSet st)"
      from b4 [OF old] obtain v where v: "gScore st (point it) = Some v"
        "v + heuristic (point it) goal \<le> priority it \<or> point it = start" by blast
      show ?thesis
      proof (cases "point it = q")
        case True
        then have "vc + 1 < v" using better v(1) by simp
        then show ?thesis using v True qs by (auto simp: G)
      next
        case False
        then show ?thesis using v by (simp add: G)
      qed
    qed
  qed
  have i5: "is_heap (openSet ?st)" using b5 by (simp add: H is_heap_Push)
  show ?thesis
    unfolding base_inv_def using i1 i2 i3 i4 i5 by blast
qed

lemma relaxed_on_improve:
  assumes "relaxed_on g st S u v"
    and "\<forall>old. gScore st q = Some old \<longrightarrow> t < old"
  shows "relaxed_on g (improve st goal cur q t) S u v"
  unfolding relaxed_on_def
proof (intro ballI impI)
  fix d assume d: "d \<in> S" and w: "isWalkable g (Point.X (padd u d)) (Point.Y (padd u d))"
  from assms(1) d w obtain w' where w': "gScore st (padd u d) = Some w'" "w' \<le> v + 1"
    unfolding relaxed_on_def by blast
  show "\<exists>w. gScore (improve st goal cur q t) (padd u d) = Some w \<and> w \<le> v + 1"
  proof (cases "padd u d = q")
    case True
    then have "t < w'" using assms(2) w' by simp
    then show ?thesis using True w' by (simp add: improve_def)
  next
    case False
    then show ?thesis using w' by (simp add: improve_def)
  qed
qed

lemma pending_improve:
  "pending st goal u v \<Longrightarrow> pending (improve st goal' cur q t) goal u v"
  unfolding pending_def by (auto simp: improve_def set_heap_Push)

lemma visit_inv_visit:
  assumes inv: "visit_inv g start goal cur D st" and d: "d \<in> set dirs"
  shows "visit_inv g start goal cur (insert d D) (visit g goal cur st d)"
proof -
  from inv have b: "base_inv g start goal st" and cg: "cur \<noteq> goal"
    and rest: "\<And>u v. gScore st u = Some v \<Longrightarrow>
            pending st goal u v
            \<or> (u \<noteq> goal \<and> relaxed_on g st (set dirs) u v)
            \<or> (u = cur \<and> relaxed_on g st D u v)"
    unfolding visit_inv_def by blast+
  from inv obtain vc where vc: "gScore st cur = Some vc"
    unfolding visit_inv_def by blast
  let ?q = "padd cur d"
  have "(visit g goal cur st d = st
      \<and> (isWalkable g (Point.X ?q) (Point.Y ?q) \<longrightarrow>
         (\<exists>old. gScore st ?q = Some old \<and> old \<le> vc + 1)))
    \<or> (visit g goal cur st d = improve st goal cur ?q (vc + 1)
      \<and> isWalkable g (Point.X ?q) (Point.Y ?q)
      \<and> (\<forall>old. gScore st ?q = Some old \<longrightarrow> vc + 1 < old))"
    by (rule visit_cases [OF vc, of g goal d]) simp_all
  then show ?thesis
  proof (elim disjE conjE)
    assume same: "visit g goal cur st d = st"
      "isWalkable g (Point.X ?q) (Point.Y ?q) \<longrightarrow>
         (\<exists>old. gScore st ?q = Some old \<and> old \<le> vc + 1)"
    have "pending st goal u v
            \<or> (u \<noteq> goal \<and> relaxed_on g st (set dirs) u v)
            \<or> (u = cur \<and> relaxed_on g st (insert d D) u v)"
      if u: "gScore st u = Some v" for u v
    proof -
      from rest [OF u] show ?thesis
      proof (elim disjE conjE)
        assume uc: "u = cur" and r: "relaxed_on g st D u v"
        then have "v = vc" using u vc by simp
        then have "relaxed_on g st (insert d D) u v"
          using r same(2) uc unfolding relaxed_on_def by auto
        then show ?thesis using uc by simp
      qed simp_all
    qed
    then show ?thesis
      unfolding visit_inv_def using same(1) b cg vc by simp
  next
    assume impr: "visit g goal cur st d = improve st goal cur ?q (vc + 1)"
      "isWalkable g (Point.X ?q) (Point.Y ?q)"
      "\<forall>old. gScore st ?q = Some old \<longrightarrow> vc + 1 < old"
    let ?st = "improve st goal cur ?q (vc + 1)"
    have adj: "adjacent4 cur ?q" using d by (auto simp: adjacent4_dirs)
    have b': "base_inv g start goal ?st"
      using base_inv_improve [OF b vc adj impr(2) impr(3)] .
    have qc: "?q \<noteq> cur" using d by (rule padd_neq)
    have G: "gScore ?st = (gScore st)(?q \<mapsto> vc + 1)" by (simp add: improve_def)
    have c': "gScore ?st cur \<noteq> None" using vc qc by (simp add: G)
    have "pending ?st goal u v
            \<or> (u \<noteq> goal \<and> relaxed_on g ?st (set dirs) u v)
            \<or> (u = cur \<and> relaxed_on g ?st (insert d D) u v)"
      if u: "gScore ?st u = Some v" for u v
    proof (cases "u = ?q")
      case True
      then have "v = vc + 1" using u by (simp add: G)
      then have "pending ?st goal u v"
        unfolding pending_def using True
        by (intro bexI [of _ "\<lparr>point = ?q, priority = vc + 1 + heuristic ?q goal\<rparr>"])
           (simp_all add: improve_def set_heap_Push)
      then show ?thesis by simp
    next
      case False
      then have gu: "gScore st u = Some v" using u by (simp add: G)
      from rest [OF gu] show ?thesis
      proof (elim disjE conjE)
        assume "pending st goal u v"
        then show ?thesis using pending_improve by simp
      next
        assume "u \<noteq> goal" "relaxed_on g st (set dirs) u v"
        then show ?thesis using relaxed_on_improve [OF _ impr(3)] by simp
      next
        assume uc: "u = cur" and r: "relaxed_on g st D u v"
        then have v: "v = vc" using gu vc by simp
        have r': "relaxed_on g ?st D u v" using relaxed_on_improve [OF r impr(3)] .
        have "relaxed_on g ?st (insert d D) u v"
          unfolding relaxed_on_def
        proof (intro ballI impI)
          fix d' assume d': "d' \<in> insert d D"
            and w: "isWalkable g (Point.X (padd u d')) (Point.Y (padd u d'))"
          show "\<exists>w. gScore ?st (padd u d') = Some w \<and> w \<le> v + 1"
          proof (cases "d' = d")
            case True
            then show ?thesis using uc v by (simp add: G)
          next
            case False
            then have "d' \<in> D" using d' by simp
            then show ?thesis using r' w unfolding relaxed_on_def by blast
          qed
        qed
        then show ?thesis using uc by simp
      qed
    qed
    then show ?thesis
      unfolding visit_inv_def using impr(1) b' cg c' by simp
  qed
qed

lemma visit_inv_foldl:
  "visit_inv g start goal cur D st \<Longrightarrow> set ds \<subseteq> set dirs \<Longrightarrow>
     visit_inv g start goal cur (D \<union> set ds) (foldl (visit g goal cur) st ds)"
proof (induction ds arbitrary: D st)
  case Nil
  then show ?case by simp
next
  case (Cons d ds)
  have step: "visit_inv g start goal cur (insert d D) (visit g goal cur st d)"
    using visit_inv_visit [OF Cons.prems(1)] Cons.prems(2) by simp
  have sub: "set ds \<subseteq> set dirs" using Cons.prems(2) by simp
  have "visit_inv g start goal cur (insert d D \<union> set ds)
      (foldl (visit g goal cur) (visit g goal cur st d) ds)"
    by (rule Cons.IH [OF step sub])
  moreover have "insert d D \<union> set ds = D \<union> set (d # ds)" by simp
  ultimately show ?case by (simp only: foldl_Cons)
qed

lemma visit_inv_pop:
  assumes inv: "astar_inv g start goal st" and ne: "openSet st \<noteq> []"
    and pop: "heap_Pop (openSet st) = (item, rest)" and ng: "point item \<noteq> goal"
  shows "visit_inv g start goal (point item) {} (st\<lparr>openSet := rest\<rparr>)"
proof -
  from inv have b: "base_inv g start goal st"
    and pr: "\<And>u v. gScore st u = Some v \<Longrightarrow>
            pending st goal u v \<or> (u \<noteq> goal \<and> relaxed_on g st (set dirs) u v)"
    unfolding astar_inv_def by blast+
  from b have hp: "is_heap (openSet st)" unfolding base_inv_def by blast
  from heap_Pop_props [OF hp ne] pop have
    ms: "add_mset item (mset rest) = mset (openSet st)" and hr: "is_heap rest"
    by auto
  have "set_mset (add_mset item (mset rest)) = set_mset (mset (openSet st))"
    by (simp only: ms)
  then have sets: "set (openSet st) = insert item (set rest)" by simp
  let ?st = "st\<lparr>openSet := rest\<rparr>"
  have b': "base_inv g start goal ?st"
    using b hr unfolding base_inv_def by (simp add: sets)
  have "\<exists>v. gScore st (point item) = Some v"
    using b unfolding base_inv_def by (auto simp: sets)
  then have c: "gScore ?st (point item) \<noteq> None" by auto
  have "pending ?st goal u v
            \<or> (u \<noteq> goal \<and> relaxed_on g ?st (set dirs) u v)
            \<or> (u = point item \<and> relaxed_on g ?st {} u v)"
    if u: "gScore ?st u = Some v" for u v
  proof -
    have gu: "gScore st u = Some v" using u by simp
    from pr [OF gu] show ?thesis
    proof (elim disjE conjE)
      assume "pending st goal u v"
      then obtain it where it: "it \<in> set (openSet st)" "point it = u"
        "priority it \<le> v + heuristic u goal" unfolding pending_def by blast
      show ?thesis
      proof (cases "it = item")
        case True
        then show ?thesis using it by (simp add: relaxed_on_def)
      next
        case False
        then have "it \<in> set rest" using it(1) by (simp add: sets)
        then have "pending ?st goal u v" using it unfolding pending_def by auto
        then show ?thesis by simp
      qed
    next
      assume "u \<noteq> goal" "relaxed_on g st (set dirs) u v"
      then show ?thesis by (simp add: relaxed_on_def)
    qed
  qed
  then show ?thesis
    unfolding visit_inv_def using b' ng c by simp
qed

lemma astar_inv_step:
  assumes inv: "astar_inv g start goal st" and ne: "openSet st \<noteq> []"
    and pop: "heap_Pop (openSet st) = (item, rest)" and ng: "point item \<noteq> goal"
  shows "astar_inv g start goal (foldl (visit g goal (point item)) (st\<lparr>openSet := rest\<rparr>) dirs)"
proof -
  have "visit_inv g start goal (point item) ({} \<union> set dirs)
      (foldl (visit g goal (point item)) (st\<lparr>openSet := rest\<rparr>) dirs)"
    using visit_inv_pop [OF inv ne pop ng] by (intro visit_inv_foldl) simp_all
  then show ?thesis
    unfolding visit_inv_def astar_inv_def by auto
qed

section \<open>Termination of the search loop\<close>

definition walkables :: "Game \<Rightarrow> Point set" where
  "walkables g = {p. isWalkable g (Point.X p) (Point.Y p)}"

lemma finite_walkables: "finite (walkables g)"
proof -
  have "walkables g \<subseteq> (\<lambda>(x, y). Point x y) ` ({0 ..< GridWidth} \<times> {0 ..< GridHeight})"
  proof
    fix p assume "p \<in> walkables g"
    then have "0 \<le> Point.X p \<and> Point.X p < GridWidth \<and> 0 \<le> Point.Y p \<and> Point.Y p < GridHeight"
      unfolding walkables_def isWalkable_def by (auto split: if_splits)
    then have "(Point.X p, Point.Y p) \<in> {0 ..< GridWidth} \<times> {0 ..< GridHeight}" by simp
    moreover have "p = (\<lambda>(x, y). Point x y) (Point.X p, Point.Y p)" by simp
    ultimately show "p \<in> (\<lambda>(x, y). Point x y) ` ({0 ..< GridWidth} \<times> {0 ..< GridHeight})"
      by (rule rev_image_eqI)
  qed
  then show ?thesis by (rule finite_subset) simp
qed

definition unseen :: "Game \<Rightarrow> astar \<Rightarrow> nat" where
  "unseen g st = card {p \<in> walkables g. gScore st p = None}"

definition total :: "Game \<Rightarrow> astar \<Rightarrow> nat" where
  "total g st = (\<Sum>p \<in> walkables g. case gScore st p of None \<Rightarrow> 0 | Some v \<Rightarrow> nat v)"

definition search_rel :: "Game \<Rightarrow> (astar \<times> astar) set" where
  "search_rel g =
     inv_image (less_than <*lex*> less_than <*lex*> less_than)
       (\<lambda>st. (unseen g st, total g st, length (openSet st)))"

lemma wf_search_rel: "wf (search_rel g)"
  unfolding search_rel_def by (intro wf_inv_image wf_lex_prod wf_less_than)

definition smaller :: "Game \<Rightarrow> astar \<Rightarrow> astar \<Rightarrow> bool" where
  "smaller g st' st =
     (unseen g st' < unseen g st \<or> (unseen g st' = unseen g st \<and> total g st' < total g st))"

lemma smaller_trans: "smaller g a b \<Longrightarrow> smaller g b c \<Longrightarrow> smaller g a c"
  unfolding smaller_def by auto

lemma improve_smaller:
  assumes w: "isWalkable g (Point.X q) (Point.Y q)" and t: "0 \<le> t"
    and better: "\<forall>old. gScore st q = Some old \<longrightarrow> t < old"
  shows "smaller g (improve st goal cur q t) st"
proof -
  let ?st = "improve st goal cur q t"
  have G: "gScore ?st = (gScore st)(q \<mapsto> t)" by (simp add: improve_def)
  have qW: "q \<in> walkables g" using w by (simp add: walkables_def)
  show ?thesis
  proof (cases "gScore st q")
    case None
    have "{p \<in> walkables g. gScore ?st p = None} \<subset> {p \<in> walkables g. gScore st p = None}"
      using qW None by (auto simp: G)
    moreover have "finite {p \<in> walkables g. gScore st p = None}"
      using finite_walkables by simp
    ultimately have "unseen g ?st < unseen g st"
      unfolding unseen_def by (rule psubset_card_mono [rotated])
    then show ?thesis by (simp add: smaller_def)
  next
    case (Some old)
    then have lt: "t < old" using better by simp
    have "{p \<in> walkables g. gScore ?st p = None} = {p \<in> walkables g. gScore st p = None}"
      using Some by (auto simp: G)
    then have u: "unseen g ?st = unseen g st" by (simp add: unseen_def)
    let ?f = "\<lambda>st p. case gScore st p of None \<Rightarrow> 0 | Some v \<Rightarrow> nat v"
    have "total g ?st = ?f ?st q + sum (?f ?st) (walkables g - {q})"
      unfolding total_def using finite_walkables qW by (simp add: sum.remove)
    moreover have "total g st = ?f st q + sum (?f st) (walkables g - {q})"
      unfolding total_def using finite_walkables qW by (simp add: sum.remove)
    moreover have "sum (?f ?st) (walkables g - {q}) = sum (?f st) (walkables g - {q})"
      by (rule sum.cong) (simp_all add: G)
    moreover have "?f ?st q < ?f st q" using lt t Some by (simp add: G)
    ultimately have "total g ?st < total g st" by simp
    then show ?thesis using u by (simp add: smaller_def)
  qed
qed

lemma visit_smaller:
  assumes inv: "visit_inv g start goal cur D st"
  shows "visit g goal cur st d = st \<or> smaller g (visit g goal cur st d) st"
proof -
  from inv obtain vc where vc: "gScore st cur = Some vc"
    unfolding visit_inv_def by blast
  from inv have "0 \<le> vc" using vc unfolding visit_inv_def base_inv_def by blast
  then have t: "0 \<le> vc + 1" by simp
  let ?q = "padd cur d"
  have "(visit g goal cur st d = st
      \<and> (isWalkable g (Point.X ?q) (Point.Y ?q) \<longrightarrow>
         (\<exists>old. gScore st ?q = Some old \<and> old \<le> vc + 1)))
    \<or> (visit g goal cur st d = improve st goal cur ?q (vc + 1)
      \<and> isWalkable g (Point.X ?q) (Point.Y ?q)
      \<and> (\<forall>old. gScore st ?q = Some old \<longrightarrow> vc + 1 < old))"
    by (rule visit_cases [OF vc, of g goal d]) simp_all
  then show ?thesis using improve_smaller [OF _ t] by auto
qed

lemma foldl_visit_smaller:
  "visit_inv g start goal cur D st \<Longrightarrow> set ds \<subseteq> set dirs \<Longrightarrow>
     foldl (visit g goal cur) st ds = st \<or> smaller g (foldl (visit g goal cur) st ds) st"
proof (induction ds arbitrary: D st)
  case Nil
  then show ?case by simp
next
  case (Cons d ds)
  let ?st1 = "visit g goal cur st d"
  have step: "visit_inv g start goal cur (insert d D) ?st1"
    using visit_inv_visit [OF Cons.prems(1)] Cons.prems(2) by simp
  have sub: "set ds \<subseteq> set dirs" using Cons.prems(2) by simp
  have 1: "?st1 = st \<or> smaller g ?st1 st" using visit_smaller [OF Cons.prems(1)] .
  have 2: "foldl (visit g goal cur) ?st1 ds = ?st1 \<or> smaller g (foldl (visit g goal cur) ?st1 ds) ?st1"
    by (rule Cons.IH [OF step sub])
  show ?case using 1 2 smaller_trans by (simp only: foldl_Cons) metis
qed

lemma length_heap_Pop:
  assumes "is_heap h" "h \<noteq> []" "heap_Pop h = (item, rest)"
  shows "Suc (length rest) = length h"
proof -
  from heap_Pop_props [OF assms(1,2)] assms(3) have "add_mset item (mset rest) = mset h" by auto
  then have "size (add_mset item (mset rest)) = size (mset h)" by simp
  then show ?thesis by simp
qed

lemma search_step_decreases:
  assumes inv: "astar_inv g start goal st" and ne: "openSet st \<noteq> []"
    and pop: "heap_Pop (openSet st) = (item, rest)" and ng: "point item \<noteq> goal"
  shows "(foldl (visit g goal (point item)) (st\<lparr>openSet := rest\<rparr>) dirs, st) \<in> search_rel g"
proof -
  let ?st0 = "st\<lparr>openSet := rest\<rparr>"
  let ?st' = "foldl (visit g goal (point item)) ?st0 dirs"
  have hp: "is_heap (openSet st)" using inv unfolding astar_inv_def base_inv_def by blast
  have len: "length rest < length (openSet st)" using length_heap_Pop [OF hp ne pop] by simp
  have u0: "unseen g ?st0 = unseen g st" "total g ?st0 = total g st"
    by (simp_all add: unseen_def total_def)
  have "?st' = ?st0 \<or> smaller g ?st' ?st0"
    using visit_inv_pop [OF inv ne pop ng] by (rule foldl_visit_smaller) simp
  then show ?thesis
  proof
    assume "?st' = ?st0"
    then show ?thesis using len u0 by (simp add: search_rel_def)
  next
    assume "smaller g ?st' ?st0"
    then show ?thesis using u0 by (auto simp: search_rel_def smaller_def)
  qed
qed

section \<open>Correctness of findPath\<close>

lemma reconstruct_path:
  assumes b: "base_inv g start goal st"
  shows "gScore st n = Some v \<Longrightarrow>
    \<exists>q. reconstruct (cameFrom st) start n (n # acc) = Some (q @ n # acc)
       \<and> connects g start n (q @ [n])
       \<and> int (length q) \<le> v
       \<and> distinct (q @ [n])
       \<and> (\<forall>x \<in> set q. \<exists>w. gScore st x = Some w \<and> w < v)"
proof (induction "nat v" arbitrary: n v acc rule: less_induct)
  case less
  have b1: "gScore st start = Some 0"
    and b2: "\<And>n v. gScore st n = Some v \<Longrightarrow> n \<noteq> start \<Longrightarrow>
            isWalkable g (Point.X n) (Point.Y n)
            \<and> (\<exists>p u. cameFrom st n = Some p \<and> adjacent4 p n \<and> gScore st p = Some u \<and> u + 1 \<le> v)"
    and b3: "\<And>n v. gScore st n = Some v \<Longrightarrow> 0 \<le> v"
    using b unfolding base_inv_def by blast+
  show ?case
  proof (cases "n = start")
    case True
    have "reconstruct (cameFrom st) start n (n # acc) = Some ([] @ n # acc)"
      using True by (subst reconstruct.simps) simp
    moreover have "connects g start n ([] @ [n])" using True by (simp add: connects_def)
    moreover have "int (length ([]::Point list)) \<le> v" using b3 [OF less.prems] by simp
    ultimately show ?thesis by (intro exI [of _ "[]"]) simp
  next
    case False
    from b2 [OF less.prems False] obtain p u where
      p: "cameFrom st n = Some p" "adjacent4 p n" "gScore st p = Some u" "u + 1 \<le> v"
      and wn: "isWalkable g (Point.X n) (Point.Y n)" by blast
    have u0: "0 \<le> u" using b3 [OF p(3)] .
    then have lt: "nat u < nat v" using p(4) by simp
    from less.hyps [OF lt p(3), of "n # acc"] obtain q where
      q: "reconstruct (cameFrom st) start p (p # n # acc) = Some (q @ p # n # acc)"
        "connects g start p (q @ [p])"
        "int (length q) \<le> u"
        "distinct (q @ [p])"
        "\<forall>x \<in> set q. \<exists>w. gScore st x = Some w \<and> w < u"
      by blast
    have r: "reconstruct (cameFrom st) start n (n # acc) = Some ((q @ [p]) @ n # acc)"
      using False p(1) q(1) by (subst reconstruct.simps) simp
    have c: "connects g start n ((q @ [p]) @ [n])"
      using connects_snoc [OF q(2) p(2) wn] .
    have l: "int (length (q @ [p])) \<le> v" using q(3) p(4) by simp
    have below: "\<forall>x \<in> set (q @ [p]). \<exists>w. gScore st x = Some w \<and> w < v"
      using q(5) p(3) p(4) by auto
    then have "n \<notin> set (q @ [p])" using less.prems by auto
    then have d: "distinct ((q @ [p]) @ [n])" using q(4) by auto
    show ?thesis using r c l d below by blast
  qed
qed

lemma frontier_aux:
  "walk g c \<Longrightarrow> astar_inv g start goal st \<Longrightarrow> last c = goal \<Longrightarrow>
   gScore st (hd c) = Some v \<Longrightarrow>
    \<exists>it \<in> set (openSet st). priority it \<le> v + int (length c) - 1"
proof (induction g c arbitrary: v rule: walk.induct)
  case (1 g)
  then show ?case by simp
next
  case (2 g p)
  then have gp: "gScore st goal = Some v" by simp
  have "pending st goal goal v \<or> (goal \<noteq> goal \<and> relaxed_on g st (set dirs) goal v)"
    using "2.prems"(2) gp unfolding astar_inv_def by blast
  then have "pending st goal goal v" by simp
  then show ?case unfolding pending_def by auto
next
  case (3 g p q r)
  note inv = "3.prems"(2)
  have gp: "gScore st p = Some v" using "3.prems" by simp
  have adj: "adjacent4 p q" and wq: "isWalkable g (Point.X q) (Point.Y q)"
    and wk: "walk g (q # r)" using "3.prems"(1) by simp_all
  have lastq: "last (q # r) = goal" using "3.prems"(3) by simp
  have "pending st goal p v \<or> (p \<noteq> goal \<and> relaxed_on g st (set dirs) p v)"
    using inv gp unfolding astar_inv_def by blast
  then show ?case
  proof
    assume "pending st goal p v"
    then obtain it where it: "it \<in> set (openSet st)" "priority it \<le> v + heuristic p goal"
      unfolding pending_def by blast
    have "heuristic p goal \<le> int (length (p # q # r)) - 1"
      using walk_heuristic [OF "3.prems"(1)] "3.prems"(3) by simp
    then show ?thesis using it by (intro bexI [of _ it]) simp_all
  next
    assume "p \<noteq> goal \<and> relaxed_on g st (set dirs) p v"
    moreover obtain d where "d \<in> set dirs" "q = padd p d"
      using adj by (auto simp: adjacent4_dirs)
    ultimately obtain w where w: "gScore st q = Some w" "w \<le> v + 1"
      using wq unfolding relaxed_on_def by blast
    have "\<exists>it \<in> set (openSet st). priority it \<le> w + int (length (q # r)) - 1"
      using "3.IH" [OF wk inv lastq] w(1) by simp
    then obtain it where "it \<in> set (openSet st)" "priority it \<le> w + int (length (q # r)) - 1"
      by blast
    then show ?thesis using w(2) by (intro bexI [of _ it]) simp_all
  qed
qed

lemma frontier:
  assumes "astar_inv g start goal st" "walk g c" "last c = goal" "gScore st (hd c) = Some v"
  shows "\<exists>it \<in> set (openSet st). priority it \<le> v + int (length c) - 1"
  using frontier_aux [OF assms(2) assms(1) assms(3) assms(4)] .

definition good_result :: "Game \<Rightarrow> Point \<Rightarrow> Point \<Rightarrow> Point list option \<Rightarrow> bool" where
  "good_result g start goal r =
     (case r of
        None \<Rightarrow> (\<forall>c. \<not> connects g start goal c)
      | Some p \<Rightarrow> connects g start goal p \<and> distinct p
                 \<and> (\<forall>c. connects g start goal c \<longrightarrow> length p \<le> length c))"

lemma search_correct:
  "astar_inv g start goal st \<Longrightarrow>
     \<exists>r. search g start goal st = Some r \<and> good_result g start goal r"
proof (induction st rule: wf_induct_rule [OF wf_search_rel [of g]])
  case (1 st)
  note inv = "1.prems"
  from inv have b: "base_inv g start goal st" unfolding astar_inv_def by blast
  have b1: "gScore st start = Some 0" using b unfolding base_inv_def by blast
  show ?case
  proof (cases "openSet st = []")
    case True
    have s: "search g start goal st = Some None"
      using True by (subst search.simps) simp
    have "\<not> connects g start goal c" for c
    proof
      assume "connects g start goal c"
      then have "walk g c" "last c = goal" "gScore st (hd c) = Some 0"
        using b1 by (simp_all add: connects_def)
      from frontier [OF inv this] show False using True by simp
    qed
    then show ?thesis using s by (simp add: good_result_def)
  next
    case ne: False
    obtain item rest where pop: "heap_Pop (openSet st) = (item, rest)"
      by (cases "heap_Pop (openSet st)")
    have hp: "is_heap (openSet st)" using b unfolding base_inv_def by blast
    from heap_Pop_props [OF hp ne] pop have
      item: "item = openSet st ! 0"
      and mn: "\<forall>x \<in> set (openSet st). priority item \<le> priority x"
      by auto
    have item_in: "item \<in> set (openSet st)" using item ne by simp
    show ?thesis
    proof (cases "point item = goal")
      case True
      from b item_in True obtain vg where vg: "gScore st goal = Some vg"
        "vg + heuristic goal goal \<le> priority item \<or> goal = start"
        unfolding base_inv_def by blast
      from reconstruct_path [OF b vg(1), of "[]"] obtain q where
        q: "reconstruct (cameFrom st) start goal [goal] = Some (q @ [goal])"
          "connects g start goal (q @ [goal])"
          "int (length q) \<le> vg"
          "distinct (q @ [goal])"
        by auto
      have s: "search g start goal st = Some (Some (q @ [goal]))"
        using ne pop True q(1) by (subst search.simps) simp
      have opt: "length (q @ [goal]) \<le> length c" if c: "connects g start goal c" for c
      proof -
        have cw: "walk g c" "last c = goal" "gScore st (hd c) = Some 0"
          using c b1 by (simp_all add: connects_def)
        from frontier [OF inv cw] obtain it where
          it: "it \<in> set (openSet st)" "priority it \<le> int (length c) - 1" by auto
        have pi: "priority item \<le> int (length c) - 1" using mn it by force
        have "vg \<le> int (length c) - 1"
        proof (cases "goal = start")
          case True
          then have "vg = 0" using vg(1) b1 by simp
          moreover have "c \<noteq> []" using cw(1) walk_nonempty by blast
          then have "0 < length c" by simp
          ultimately show ?thesis by simp
        next
          case False
          then show ?thesis using vg(2) pi by simp
        qed
        then show ?thesis using q(3) by simp
      qed
      show ?thesis using s q(2) q(4) opt by (simp add: good_result_def)
    next
      case False
      let ?st' = "foldl (visit g goal (point item)) (st\<lparr>openSet := rest\<rparr>) dirs"
      have s: "search g start goal st = search g start goal ?st'"
        using ne pop False by (subst search.simps) simp
      have "(?st', st) \<in> search_rel g"
        using search_step_decreases [OF inv ne pop False] .
      moreover have "astar_inv g start goal ?st'"
        using astar_inv_step [OF inv ne pop False] .
      ultimately show ?thesis using "1.IH" s by simp
    qed
  qed
qed

lemma heap_Push_empty: "heap_Push (heap_Init []) x = [x]"
  by (simp add: heap_Init_def heap_Push_def pq_Push_def heap_up_unfold)

lemma astar_inv_init:
  "astar_inv g start goal
     \<lparr>openSet = heap_Push (heap_Init []) \<lparr>point = start, priority = 0\<rparr>,
      cameFrom = Map.empty, gScore = [start \<mapsto> 0]\<rparr>"
proof -
  have c: "connects g start start [start]" by (simp add: connects_def)
  have h: "is_heap [\<lparr>point = start, priority = 0\<rparr>]"
    by (simp add: is_heap_def heap_upto_def)
  have p: "pending \<lparr>openSet = [\<lparr>point = start, priority = 0\<rparr>],
      cameFrom = Map.empty, gScore = [start \<mapsto> 0]\<rparr> goal start 0"
    by (simp add: pending_def heuristic_nonneg)
  show ?thesis
    unfolding astar_inv_def base_inv_def heap_Push_empty
    using c h p by (auto split: if_splits intro!: exI [of _ "[start]"])
qed

lemma findPath_correct:
  "\<exists>r. findPath g start goal = Some r \<and> good_result g start goal r"
  unfolding findPath_def by (rule search_correct [OF astar_inv_init])

section \<open>The claims on findPath\<close>

text \<open>A chain whose two endpoints are both exempt from walkability: only the cells
  strictly between the first and the last must be walkable.\<close>

fun open_walk :: "Game \<Rightarrow> Point list \<Rightarrow> bool" where
  "open_walk g [] = False"
| "open_walk g [p] = True"
| "open_walk g [p, q] = adjacent4 p q"
| "open_walk g (p # q # r) =
     (adjacent4 p q \<and> isWalkable g (Point.X q) (Point.Y q) \<and> open_walk g (q # r))"

lemma walk_open_walk: "walk g c \<Longrightarrow> open_walk g c"
  by (induction g c rule: open_walk.induct) auto

lemma open_walk_walk:
  "open_walk g c \<Longrightarrow> isWalkable g (Point.X (last c)) (Point.Y (last c)) \<Longrightarrow> walk g c"
  by (induction g c rule: open_walk.induct) auto

lemma connects_last_walkable:
  "connects g s t c \<Longrightarrow> s = t \<or> isWalkable g (Point.X t) (Point.Y t)"
proof -
  assume c: "connects g s t c"
  then have w: "walk g c" and h: "hd c = s" and l: "last c = t" by (simp_all add: connects_def)
  show ?thesis
  proof (cases c)
    case Nil
    then show ?thesis using w by simp
  next
    case (Cons a r)
    show ?thesis
    proof (cases "r = []")
      case True
      then show ?thesis using Cons h l by simp
    next
      case False
      then have "t \<in> set (tl c)" using Cons l by auto
      then show ?thesis using walk_tail_walkable [OF w] by blast
    qed
  qed
qed


text \<open>
  Claim C4 (as amended). For every grid and every source and target cell, \<open>findPath\<close>
  returns, and it returns a path (not nil) if and only if a chain of 4-adjacent cells
  leads from source to target in which every cell after the source is walkable. The
  source is never tested, and a target other than the source must be walkable: in terms
  of the chains whose two endpoints are both exempt from walkability, a path is returned
  if and only if such a chain exists and the target is the source or is walkable. Every
  returned path starts at source, ends at target, has every consecutive pair of cells
  4-adjacent, every cell after the first walkable, and no duplicate cell.
\<close>

theorem findPath_path_iff_chain:
  "\<exists>r. findPath g source target = Some r
     \<and> ((\<exists>p. r = Some p) = (\<exists>c. connects g source target c))
     \<and> ((\<exists>p. r = Some p) =
          ((source = target \<or> isWalkable g (Point.X target) (Point.Y target))
           \<and> (\<exists>c. open_walk g c \<and> hd c = source \<and> last c = target)))
     \<and> (\<forall>p. r = Some p \<longrightarrow>
          p \<noteq> [] \<and> hd p = source \<and> last p = target
          \<and> (\<forall>i. Suc i < length p \<longrightarrow> adjacent4 (p ! i) (p ! Suc i))
          \<and> (\<forall>q \<in> set (tl p). isWalkable g (Point.X q) (Point.Y q))
          \<and> distinct p)"
proof -
  from findPath_correct [of g source target] obtain r where
    r: "findPath g source target = Some r" "good_result g source target r" by blast
  have iff: "(\<exists>p. r = Some p) = (\<exists>c. connects g source target c)"
    using r(2) by (cases r) (auto simp: good_result_def)
  have props: "p \<noteq> [] \<and> hd p = source \<and> last p = target
          \<and> (\<forall>i. Suc i < length p \<longrightarrow> adjacent4 (p ! i) (p ! Suc i))
          \<and> (\<forall>q \<in> set (tl p). isWalkable g (Point.X q) (Point.Y q))
          \<and> distinct p" if "r = Some p" for p
  proof -
    from that r(2) have c: "connects g source target p" and d: "distinct p"
      by (simp_all add: good_result_def)
    then have w: "walk g p" by (simp add: connects_def)
    show ?thesis
      using c d walk_nonempty [OF w] walk_adjacent [OF w] walk_tail_walkable [OF w]
      by (simp add: connects_def)
  qed
  have op: "(\<exists>c. connects g source target c) =
      ((source = target \<or> isWalkable g (Point.X target) (Point.Y target))
       \<and> (\<exists>c. open_walk g c \<and> hd c = source \<and> last c = target))"
  proof
    assume "\<exists>c. connects g source target c"
    then obtain c where c: "connects g source target c" by blast
    then have "open_walk g c \<and> hd c = source \<and> last c = target"
      by (simp add: connects_def walk_open_walk)
    then show "(source = target \<or> isWalkable g (Point.X target) (Point.Y target))
       \<and> (\<exists>c. open_walk g c \<and> hd c = source \<and> last c = target)"
      using connects_last_walkable [OF c] by blast
  next
    assume a: "(source = target \<or> isWalkable g (Point.X target) (Point.Y target))
       \<and> (\<exists>c. open_walk g c \<and> hd c = source \<and> last c = target)"
    then obtain c where c: "open_walk g c" "hd c = source" "last c = target" by blast
    from a show "\<exists>c. connects g source target c"
    proof (elim conjE disjE)
      assume "source = target"
      then have "connects g source target [source]" by (simp add: connects_def)
      then show ?thesis by blast
    next
      assume "isWalkable g (Point.X target) (Point.Y target)"
      then have "walk g c" using open_walk_walk [OF c(1)] c(3) by simp
      then have "connects g source target c" using c(2) c(3) by (simp add: connects_def)
      then show ?thesis by blast
    qed
  qed
  show ?thesis using r(1) iff props op by blast
qed

theorem findPath_path_iff_chain_witness:
  "\<exists>p. findPath (gameOn ringGrid) (Point 10 1) (Point 10 2) = Some (Some p)
     \<and> p \<noteq> [] \<and> hd p = Point 10 1 \<and> last p = Point 10 2
     \<and> list_all (\<lambda>q. isWalkable (gameOn ringGrid) (Point.X q) (Point.Y q)) (tl p)
     \<and> distinct p"
proof -
  let ?g = "gameOn ringGrid"
  have w: "isWalkable ?g 10 2"
    by (simp add: isWalkable_def gameOn_def ringGrid_def GridWidth_def GridHeight_def)
  have c: "connects ?g (Point 10 1) (Point 10 2) [Point 10 1, Point 10 2]"
    using w by (simp add: connects_def adjacent4_def)
  from findPath_path_iff_chain [of ?g "Point 10 1" "Point 10 2"] obtain r where
    r: "findPath ?g (Point 10 1) (Point 10 2) = Some r"
      "(\<exists>p. r = Some p) = (\<exists>c. connects ?g (Point 10 1) (Point 10 2) c)"
      "\<forall>p. r = Some p \<longrightarrow>
          p \<noteq> [] \<and> hd p = Point 10 1 \<and> last p = Point 10 2
          \<and> (\<forall>i. Suc i < length p \<longrightarrow> adjacent4 (p ! i) (p ! Suc i))
          \<and> (\<forall>q \<in> set (tl p). isWalkable ?g (Point.X q) (Point.Y q))
          \<and> distinct p"
    by blast
  from r(2) c obtain p where p: "r = Some p" by blast
  show ?thesis using r(1) r(3) p by (auto simp: list_all_iff)
qed

text \<open>
  Neither reading of "walkable chain" with the two endpoints treated alike gives the
  claim as it was stated. With both endpoints exempt: from the spawn (10,1) the wall cell
  (10,0) is one step away, a chain with no cell between its endpoints, and \<open>findPath\<close>
  returns nil, since it never goes to a cell that is not walkable. With every cell
  walkable: from the wall cell (10,0), which no chain of walkable cells contains,
  \<open>findPath\<close> returns a path to the spawn, since it never tests its start.
\<close>

theorem findPath_chain_counterexample:
  "open_walk (gameOn ringGrid) [Point 10 1, Point 10 0]
   \<and> hd [Point 10 1, Point 10 0] = Point 10 1
   \<and> last [Point 10 1, Point 10 0] = Point 10 0
   \<and> findPath (gameOn ringGrid) (Point 10 1) (Point 10 0) = Some None
   \<and> \<not> isWalkable (gameOn ringGrid) 10 0
   \<and> findPath (gameOn ringGrid) (Point 10 0) (Point 10 1) =
       Some (Some [Point 10 0, Point 10 1])"
proof -
  let ?g = "gameOn ringGrid"
  have nw: "\<not> isWalkable ?g 10 0"
    by (simp add: isWalkable_def gameOn_def ringGrid_def GridWidth_def GridHeight_def)
  have ow: "open_walk ?g [Point 10 1, Point 10 0]"
    by (simp add: adjacent4_def)
  from findPath_correct [of ?g "Point 10 1" "Point 10 0"] obtain r where
    r: "findPath ?g (Point 10 1) (Point 10 0) = Some r"
       "good_result ?g (Point 10 1) (Point 10 0) r" by blast
  have "r = None"
  proof (cases r)
    case None
    then show ?thesis .
  next
    case (Some p)
    then have "connects ?g (Point 10 1) (Point 10 0) p"
      using r(2) by (simp add: good_result_def)
    from connects_last_walkable [OF this] have False using nw by simp
    then show ?thesis ..
  qed
  then have no_path: "findPath ?g (Point 10 1) (Point 10 0) = Some None" using r(1) by simp
  have from_wall: "findPath ?g (Point 10 0) (Point 10 1) = Some (Some [Point 10 0, Point 10 1])"
    by code_simp
  show ?thesis
    using ow no_path nw from_wall by simp
qed

text \<open>
  Claim C5. \<open>findPath\<close> is a shortest-path search under uniform step cost: a returned
  path is no longer than any chain of 4-adjacent cells from source to target whose cells
  between the endpoints are walkable. On the 20 by 15 grid of open ground inside a
  bordering wall ring, from the spawn (10,1) to the base (10,13), \<open>findPath\<close> returns
  the straight vertical line of 13 cells.
\<close>

theorem findPath_shortest:
  "(\<forall>p c. findPath g source target = Some (Some p)
          \<and> open_walk g c \<and> hd c = source \<and> last c = target
        \<longrightarrow> length p \<le> length c)
   \<and> findPath (gameOn ringGrid) (Point 10 1) (Point 10 13) =
       Some (Some [Point 10 1, Point 10 2, Point 10 3, Point 10 4, Point 10 5, Point 10 6,
                   Point 10 7, Point 10 8, Point 10 9, Point 10 10, Point 10 11,
                   Point 10 12, Point 10 13])
   \<and> length [Point 10 1, Point 10 2, Point 10 3, Point 10 4, Point 10 5, Point 10 6,
              Point 10 7, Point 10 8, Point 10 9, Point 10 10, Point 10 11,
              Point 10 12, Point 10 13] = 13"
proof -
  have short: "length p \<le> length c"
    if p: "findPath g source target = Some (Some p)"
      and c: "open_walk g c" "hd c = source" "last c = target" for p c
  proof -
    from findPath_correct [of g source target] p have gr: "good_result g source target (Some p)"
      by auto
    then have cp: "connects g source target p"
      and mn: "\<And>c. connects g source target c \<Longrightarrow> length p \<le> length c"
      by (simp_all add: good_result_def)
    from connects_last_walkable [OF cp] show ?thesis
    proof
      assume st: "source = target"
      have "walk g [source]" by simp
      then have "connects g source target [source]" using st by (simp add: connects_def)
      then have "length p \<le> 1" using mn by fastforce
      moreover have "c \<noteq> []" using c(1) by auto
      then have "1 \<le> length c" by (cases c) simp_all
      ultimately show ?thesis by simp
    next
      assume "isWalkable g (Point.X target) (Point.Y target)"
      then have "walk g c" using open_walk_walk [OF c(1)] c(3) by simp
      then show ?thesis using mn c(2) c(3) by (simp add: connects_def)
    qed
  qed
  have line: "findPath (gameOn ringGrid) (Point 10 1) (Point 10 13) =
       Some (Some [Point 10 1, Point 10 2, Point 10 3, Point 10 4, Point 10 5, Point 10 6,
                   Point 10 7, Point 10 8, Point 10 9, Point 10 10, Point 10 11,
                   Point 10 12, Point 10 13])"
    by code_simp
  show ?thesis using short line by simp
qed

theorem findPath_shortest_witness:
  "\<exists>p. findPath (gameOn ringGrid) (Point 10 1) (Point 10 3) = Some (Some p)
     \<and> length p \<le> 3"
proof -
  let ?g = "gameOn ringGrid"
  let ?c = "[Point 10 1, Point 10 2, Point 10 3]"
  have w: "isWalkable ?g 10 2" "isWalkable ?g 10 3"
    by (simp_all add: isWalkable_def gameOn_def ringGrid_def GridWidth_def GridHeight_def)
  have c: "connects ?g (Point 10 1) (Point 10 3) ?c"
    using w by (simp add: connects_def adjacent4_def)
  from findPath_correct [of ?g "Point 10 1" "Point 10 3"] obtain r where
    r: "findPath ?g (Point 10 1) (Point 10 3) = Some r" "good_result ?g (Point 10 1) (Point 10 3) r"
    by blast
  from r(2) c obtain p where p: "r = Some p" by (cases r) (auto simp: good_result_def)
  have o: "open_walk ?g ?c" "hd ?c = Point 10 1" "last ?c = Point 10 3"
    using w by (simp_all add: adjacent4_def)
  have "length p \<le> length ?c"
    using findPath_shortest [of ?g "Point 10 1" "Point 10 3"] r(1) p o by blast
  then show ?thesis using r(1) p by simp
qed

section \<open>Placing and removing towers\<close>

text \<open>
  Claim C8. For every ground cell (x, y) of the grid and every resource level of at
  least \<open>TowerCost\<close>: \<open>addTower\<close> succeeds, and \<open>removeTower\<close> right after it gives the
  cell its tile type of before the placement (the whole grid is as before), and leaves
  the resources at the starting value minus the cost plus the refund \<open>TowerCost div 2\<close>,
  which is strictly less than the cost.
\<close>

theorem place_then_remove:
  assumes "0 \<le> x" "x < GridWidth" "0 \<le> y" "y < GridHeight"
    and "grid g y x = TileGround"
    and "resources g \<ge> TowerCost"
  shows "\<exists>g1. addTower x y g = (True, g1)
           \<and> grid (removeTower x y g1) y x = grid g y x
           \<and> grid (removeTower x y g1) = grid g
           \<and> resources (removeTower x y g1) = resources g - TowerCost + TowerCost div 2
           \<and> TowerCost div 2 < TowerCost"
proof -
  let ?g1 = "g\<lparr>resources := resources g - TowerCost,
                grid := (grid g)(y := (grid g y)(x := TileTower)),
                towers := towers g @ [\<lparr>Tower.X = x, Tower.Y = y, Cooldown = 0\<rparr>]\<rparr>"
  have add: "addTower x y g = (True, ?g1)"
    using assms(6) by (simp add: addTower_def)
  have row: "(grid g y)(x := TileGround) = grid g y"
    using assms(5) by (simp add: fun_upd_idem)
  have gr: "grid (removeTower x y ?g1) = grid g"
    by (simp add: removeTower_def row)
  have res: "resources (removeTower x y ?g1) = resources g - TowerCost + TowerCost div 2"
    by (simp add: removeTower_def)
  have "TowerCost div 2 < TowerCost"
    by (simp add: TowerCost_def)
  with add gr res show ?thesis by simp
qed

theorem place_then_remove_witness:
  "\<exists>g1. addTower 3 4 ((gameOn ringGrid)\<lparr>resources := 100\<rparr>) = (True, g1)
     \<and> grid (removeTower 3 4 g1) 4 3 = TileGround
     \<and> resources (removeTower 3 4 g1) = 87"
proof -
  let ?g = "(gameOn ringGrid)\<lparr>resources := 100\<rparr>"
  have 1: "grid ?g 4 3 = TileGround"
    by (simp add: gameOn_def ringGrid_def GridWidth_def GridHeight_def)
  have 2: "resources ?g \<ge> TowerCost"
    by (simp add: TowerCost_def)
  have 3: "(0::int) \<le> 3" "(3::int) < GridWidth" "(0::int) \<le> 4" "(4::int) < GridHeight"
    by (simp_all add: GridWidth_def GridHeight_def)
  from place_then_remove [OF 3 1 2] obtain g1 where
    "addTower 3 4 ?g = (True, g1)"
    "grid (removeTower 3 4 g1) 4 3 = grid ?g 4 3"
    "resources (removeTower 3 4 g1) = resources ?g - TowerCost + TowerCost div 2"
    by blast
  then show ?thesis using 1 by (auto simp: TowerCost_def)
qed

section \<open>The path functions of the game return\<close>

text \<open>\<open>findPath\<close> reads nothing of the game but the grid.\<close>

lemma isWalkable_grid: "grid g' = grid g \<Longrightarrow> isWalkable g' x y = isWalkable g x y"
  by (simp add: isWalkable_def cong: if_cong)

lemma visit_grid:
  assumes "grid g' = grid g"
  shows "visit g' goal cur st d = visit g goal cur st d"
proof -
  have "\<And>x y. isWalkable g' x y = isWalkable g x y"
    using assms by (rule isWalkable_grid)
  then show ?thesis by (simp add: visit_def)
qed

lemma foldl_visit_grid:
  "grid g' = grid g \<Longrightarrow> foldl (visit g' goal cur) st ds = foldl (visit g goal cur) st ds"
  by (induction ds arbitrary: st) (simp_all add: visit_grid [of g' g])

lemma search_grid:
  assumes gr: "grid g' = grid g"
  shows "astar_inv g start goal st \<Longrightarrow> search g' start goal st = search g start goal st"
proof (induction st rule: wf_induct_rule [OF wf_search_rel [of g]])
  case (1 st)
  note inv = "1.prems"
  show ?case
  proof (cases "openSet st = []")
    case True
    have "search g' start goal st = Some None" using True by (subst search.simps) simp
    moreover have "search g start goal st = Some None" using True by (subst search.simps) simp
    ultimately show ?thesis by simp
  next
    case ne: False
    obtain item rest where pop: "heap_Pop (openSet st) = (item, rest)"
      by (cases "heap_Pop (openSet st)")
    show ?thesis
    proof (cases "point item = goal")
      case True
      have "search g' start goal st =
          Option.bind (reconstruct (cameFrom st) start goal [goal]) (\<lambda>p. Some (Some p))"
        using ne pop True by (subst search.simps) simp
      moreover have "search g start goal st =
          Option.bind (reconstruct (cameFrom st) start goal [goal]) (\<lambda>p. Some (Some p))"
        using ne pop True by (subst search.simps) simp
      ultimately show ?thesis by simp
    next
      case False
      let ?st' = "foldl (visit g goal (point item)) (st\<lparr>openSet := rest\<rparr>) dirs"
      have 1: "search g' start goal st = search g' start goal ?st'"
        using ne pop False by (subst search.simps) (simp add: foldl_visit_grid [OF gr, of goal])
      have 2: "search g start goal st = search g start goal ?st'"
        using ne pop False by (subst search.simps) simp
      have "(?st', st) \<in> search_rel g"
        using search_step_decreases [OF inv ne pop False] .
      moreover have "astar_inv g start goal ?st'"
        using astar_inv_step [OF inv ne pop False] .
      ultimately have "search g' start goal ?st' = search g start goal ?st'"
        using "1.IH" by simp
      then show ?thesis using 1 2 by simp
    qed
  qed
qed

lemma findPath_grid: "grid g' = grid g \<Longrightarrow> findPath g' start goal = findPath g start goal"
  unfolding findPath_def by (rule search_grid [OF _ astar_inv_init])

lemma findPath_returns: "\<exists>r. findPath g start goal = Some r"
  using findPath_correct [of g start goal] by blast

lemma findPath_nonempty: "findPath g start goal = Some (Some p) \<Longrightarrow> p \<noteq> []"
  using findPath_correct [of g start goal] walk_nonempty
  by (auto simp: good_result_def connects_def)

text \<open>The grid cell that \<open>recalculateEnemyPaths\<close> computes for an enemy.\<close>

definition enemyCell :: "Enemy \<Rightarrow> Point" where
  "enemyCell e =
     Point (go_div (float_to_int (Enemy.X e)) CellSize) (go_div (float_to_int (Enemy.Y e)) CellSize)"

lemma recalculatePath_returns:
  "\<exists>p. findPath g (spawn g) (base g) = Some p
     \<and> recalculatePath g = Some (g\<lparr>path := p, pathBlocked := (p = None)\<rparr>)"
  using findPath_returns [of g "spawn g" "base g"] by (auto simp: recalculatePath_def)

lemma recalculateEnemyPath_returns:
  "\<exists>r. findPath g (enemyCell e) (base g) = Some r
     \<and> recalculateEnemyPath g e =
         Some (case r of Some p \<Rightarrow> e\<lparr>Path := p, PathIndex := 1\<rparr> | None \<Rightarrow> e)"
proof -
  obtain r where r: "findPath g (enemyCell e) (base g) = Some r"
    using findPath_returns by blast
  then show ?thesis
    by (cases r) (simp_all add: recalculateEnemyPath_def enemyCell_def Let_def)
qed

lemma recalculateEnemyPaths_loop_returns:
  "\<exists>es'. recalculateEnemyPaths_loop g es = Some es'
     \<and> length es' = length es
     \<and> (\<forall>i < length es. recalculateEnemyPath g (es ! i) = Some (es' ! i))"
proof (induction es)
  case Nil
  then show ?case by simp
next
  case (Cons e es)
  obtain e' where e': "recalculateEnemyPath g e = Some e'"
    using recalculateEnemyPath_returns [of g e] by blast
  from Cons obtain es' where es': "recalculateEnemyPaths_loop g es = Some es'"
    "length es' = length es" "\<forall>i < length es. recalculateEnemyPath g (es ! i) = Some (es' ! i)"
    by blast
  have "\<forall>i < length (e # es). recalculateEnemyPath g ((e # es) ! i) = Some ((e' # es') ! i)"
    using e' es'(3) by (auto simp: nth_Cons split: nat.splits)
  then show ?case using e' es' by simp
qed

section \<open>The passes of a tick\<close>

lemma updateEnemies_loop_eq:
  "updateEnemies_loop es g alive =
     (g\<lparr>resources := resources g + KillReward * int (length (filter (\<lambda>e. HP e \<le> 0) es)),
        totalKills := totalKills g + int (length (filter (\<lambda>e. HP e \<le> 0) es)),
        state := (if \<exists>e \<in> set es. \<not> HP e \<le> 0 \<and> length (Path e) \<le> PathIndex e
                  then StateLost else state g)\<rparr>,
      alive @ map moveEnemy (filter (\<lambda>e. \<not> HP e \<le> 0 \<and> PathIndex e < length (Path e)) es))"
proof (induction es arbitrary: g alive)
  case Nil
  then show ?case by simp
next
  case (Cons e es)
  show ?case
  proof (cases "HP e \<le> 0")
    case True
    then show ?thesis by (auto simp: Cons.IH algebra_simps)
  next
    case alive: False
    show ?thesis
    proof (cases "length (Path e) \<le> PathIndex e")
      case True
      then show ?thesis using alive by (simp add: Cons.IH)
    next
      case False
      then show ?thesis using alive by (simp add: Cons.IH)
    qed
  qed
qed

lemma updateEnemies_eq:
  "updateEnemies g =
     g\<lparr>resources := resources g + KillReward * int (length (filter (\<lambda>e. HP e \<le> 0) (enemies g))),
       totalKills := totalKills g + int (length (filter (\<lambda>e. HP e \<le> 0) (enemies g))),
       state := (if \<exists>e \<in> set (enemies g). \<not> HP e \<le> 0 \<and> length (Path e) \<le> PathIndex e
                 then StateLost else state g),
       enemies := map moveEnemy
         (filter (\<lambda>e. \<not> HP e \<le> 0 \<and> PathIndex e < length (Path e)) (enemies g))\<rparr>"
  by (simp add: updateEnemies_def updateEnemies_loop_eq)

lemma HP_moveEnemy [simp]: "HP (moveEnemy e) = HP e"
  by (simp add: moveEnemy_def Let_def)

lemma findTarget_bound:
  "findTarget tx ty es i target best = Some k \<Longrightarrow>
     target = Some k \<or> (i \<le> k \<and> k < i + length es)"
proof (induction es arbitrary: i target best)
  case Nil
  then show ?case by simp
next
  case (Cons e es)
  then show ?case
    by (fastforce simp: Let_def split: if_splits)
qed

lemma findTarget_Nil [simp]: "findTarget tx ty [] i target best = target"
  by simp

lemma updateTower_frame:
  "\<exists>t' es' ls'. updateTower t g = (t', g\<lparr>enemies := es', lasers := ls'\<rparr>)
     \<and> length es' = length (enemies g)"
proof (cases "Cooldown t > 0")
  case True
  have "g = g\<lparr>enemies := enemies g, lasers := lasers g\<rparr>" by simp
  then have "updateTower t g = (t\<lparr>Cooldown := Cooldown t - 1\<rparr>, g\<lparr>enemies := enemies g, lasers := lasers g\<rparr>)"
    using True by (simp add: updateTower_def)
  then show ?thesis by blast
next
  case False
  show ?thesis
  proof (cases "findTarget (cellCenter (Tower.X t)) (cellCenter (Tower.Y t)) (enemies g) 0 None (- 1)")
    case None
    have "g = g\<lparr>enemies := enemies g, lasers := lasers g\<rparr>" by simp
    then have "updateTower t g = (t, g\<lparr>enemies := enemies g, lasers := lasers g\<rparr>)"
      using False None by (simp add: updateTower_def)
    then show ?thesis by blast
  next
    case (Some i)
    let ?e = "(enemies g ! i)\<lparr>HP := HP (enemies g ! i) - TowerDamage\<rparr>"
    let ?l = "\<lparr>FromX = cellCenter (Tower.X t), FromY = cellCenter (Tower.Y t),
               ToX = Enemy.X ?e, ToY = Enemy.Y ?e, TTL = LaserDuration\<rparr>"
    have "updateTower t g =
        (t\<lparr>Cooldown := TowerCooldown\<rparr>,
         g\<lparr>enemies := (enemies g)[i := ?e], lasers := lasers g @ [?l]\<rparr>)"
      using False Some by (simp add: updateTower_def Let_def)
    moreover have "length ((enemies g)[i := ?e]) = length (enemies g)" by simp
    ultimately show ?thesis by blast
  qed
qed

lemma updateTowers_loop_frame:
  "\<exists>ts' es' ls'. updateTowers_loop ts g = (ts', g\<lparr>enemies := es', lasers := ls'\<rparr>)
     \<and> length ts' = length ts \<and> length es' = length (enemies g)"
proof (induction ts arbitrary: g)
  case Nil
  have "g = g\<lparr>enemies := enemies g, lasers := lasers g\<rparr>" by simp
  then have "updateTowers_loop [] g = ([], g\<lparr>enemies := enemies g, lasers := lasers g\<rparr>)" by simp
  then show ?case by blast
next
  case (Cons t ts)
  from updateTower_frame [of t g] obtain t' es1 ls1 where
    1: "updateTower t g = (t', g\<lparr>enemies := es1, lasers := ls1\<rparr>)" "length es1 = length (enemies g)"
    by blast
  from Cons [of "g\<lparr>enemies := es1, lasers := ls1\<rparr>"] obtain ts' es' ls' where
    2: "updateTowers_loop ts (g\<lparr>enemies := es1, lasers := ls1\<rparr>) = (ts', g\<lparr>enemies := es', lasers := ls'\<rparr>)"
      "length ts' = length ts" "length es' = length es1"
    by auto
  have "updateTowers_loop (t # ts) g = (t' # ts', g\<lparr>enemies := es', lasers := ls'\<rparr>)"
    using 1 2 by simp
  then show ?case using 1 2 by auto
qed

lemma updateTowers_frame:
  "\<exists>ts' es' ls'. updateTowers g = g\<lparr>enemies := es', lasers := ls', towers := ts'\<rparr>
     \<and> length ts' = length (towers g) \<and> length es' = length (enemies g)"
proof -
  from updateTowers_loop_frame [of "towers g" g] obtain ts' es' ls' where
    "updateTowers_loop (towers g) g = (ts', g\<lparr>enemies := es', lasers := ls'\<rparr>)"
    "length ts' = length (towers g)" "length es' = length (enemies g)" by blast
  then have "updateTowers g = g\<lparr>enemies := es', lasers := ls', towers := ts'\<rparr>
     \<and> length ts' = length (towers g) \<and> length es' = length (enemies g)"
    by (simp add: updateTowers_def)
  then show ?thesis by blast
qed

text \<open>A click that places a tower, and a click that removes one.\<close>

definition placed :: "Input \<Rightarrow> Game \<Rightarrow> bool" where
  "placed inp g =
     (hoverValid g \<and> state g = StatePlaying \<and> mouseLeft inp
      \<and> grid g (hoverY g) (hoverX g) = TileGround \<and> TowerCost \<le> resources g)"

definition removed :: "Input \<Rightarrow> Game \<Rightarrow> bool" where
  "removed inp g =
     (hoverValid g \<and> state g = StatePlaying \<and> mouseRight inp
      \<and> grid g (hoverY g) (hoverX g) = TileTower)"

lemma Update_clicks_eq:
  "Update_clicks inp g =
     (if placed inp g then
        Option.bind (recalculatePath (snd (addTower (hoverX g) (hoverY g) g))) recalculateEnemyPaths
      else if removed inp g then
        Option.bind (recalculatePath (removeTower (hoverX g) (hoverY g) g)) recalculateEnemyPaths
      else Some g)"
  by (auto simp: Update_clicks_def placed_def removed_def addTower_def removeTower_def Let_def)

lemma regrid_returns:
  "\<exists>p es'. Option.bind (recalculatePath g) recalculateEnemyPaths =
        Some (g\<lparr>path := p, pathBlocked := (p = None), enemies := es'\<rparr>)
     \<and> findPath g (spawn g) (base g) = Some p
     \<and> length es' = length (enemies g)
     \<and> (\<forall>i < length (enemies g).
          \<exists>r. findPath g (enemyCell (enemies g ! i)) (base g) = Some r
             \<and> es' ! i = (case r of Some q \<Rightarrow> (enemies g ! i)\<lparr>Path := q, PathIndex := 1\<rparr>
                                  | None \<Rightarrow> enemies g ! i))"
proof -
  from recalculatePath_returns [of g] obtain p where
    p: "findPath g (spawn g) (base g) = Some p"
       "recalculatePath g = Some (g\<lparr>path := p, pathBlocked := (p = None)\<rparr>)" by blast
  let ?g1 = "g\<lparr>path := p, pathBlocked := (p = None)\<rparr>"
  have gr: "grid ?g1 = grid g" by simp
  from recalculateEnemyPaths_loop_returns [of ?g1 "enemies g"] obtain es' where
    es': "recalculateEnemyPaths_loop ?g1 (enemies g) = Some es'"
      "length es' = length (enemies g)"
      "\<forall>i < length (enemies g). recalculateEnemyPath ?g1 (enemies g ! i) = Some (es' ! i)"
    by blast
  have r: "Option.bind (recalculatePath g) recalculateEnemyPaths =
        Some (g\<lparr>path := p, pathBlocked := (p = None), enemies := es'\<rparr>)"
    using p(2) es'(1) by (simp add: recalculateEnemyPaths_def)
  have each: "\<exists>r. findPath g (enemyCell (enemies g ! i)) (base g) = Some r
             \<and> es' ! i = (case r of Some q \<Rightarrow> (enemies g ! i)\<lparr>Path := q, PathIndex := 1\<rparr>
                                  | None \<Rightarrow> enemies g ! i)"
    if i: "i < length (enemies g)" for i
  proof -
    from recalculateEnemyPath_returns [of ?g1 "enemies g ! i"] obtain r where
      r: "findPath ?g1 (enemyCell (enemies g ! i)) (base ?g1) = Some r"
         "recalculateEnemyPath ?g1 (enemies g ! i) =
            Some (case r of Some q \<Rightarrow> (enemies g ! i)\<lparr>Path := q, PathIndex := 1\<rparr>
                          | None \<Rightarrow> enemies g ! i)"
      by blast
    have "findPath g (enemyCell (enemies g ! i)) (base g) = Some r"
      using r(1) findPath_grid [OF gr] by simp
    then show ?thesis using r(2) es'(3) i by auto
  qed
  show ?thesis using r p(1) es'(2) each by blast
qed

section \<open>Grid edits\<close>

text \<open>The game that \<open>Update\<close> hands to its click block in a playing tick: after the
  wave logic, the enemy, tower and laser passes and the cursor update.\<close>

definition Update_passes :: "Input \<Rightarrow> Game \<Rightarrow> Game" where
  "Update_passes inp g =
     Update_hover inp (updateLasers (updateTowers (updateEnemies (Update_waves g))))"

lemma Update_playing:
  "state g = StatePlaying \<Longrightarrow> Update inp g = Update_clicks inp (Update_passes inp g)"
  by (simp add: Update_def Update_passes_def)

lemma float_to_int_nonneg: "0 \<le> x \<Longrightarrow> float_to_int x = \<lfloor>x\<rfloor>"
  by (simp add: float_to_int_def)

lemma go_div_nonneg: "0 \<le> a \<Longrightarrow> 0 < b \<Longrightarrow> go_div a b = a div b"
  by (cases "a = 0") (simp_all add: go_div_def)

lemma enemyCell_enclosing:
  assumes "0 \<le> Enemy.X e" "0 \<le> Enemy.Y e"
  shows "enemyCell e = Point \<lfloor>Enemy.X e / 40\<rfloor> \<lfloor>Enemy.Y e / 40\<rfloor>"
proof -
  have "\<And>x::real. 0 \<le> x \<Longrightarrow> go_div (float_to_int x) CellSize = \<lfloor>x / 40\<rfloor>"
  proof -
    fix x :: real assume x: "0 \<le> x"
    have "go_div (float_to_int x) CellSize = \<lfloor>x\<rfloor> div 40"
      using x by (simp add: float_to_int_nonneg go_div_nonneg CellSize_def)
    also have "\<dots> = \<lfloor>x / real_of_int 40\<rfloor>"
      by (rule floor_divide_real_eq_div [symmetric]) simp
    finally show "go_div (float_to_int x) CellSize = \<lfloor>x / 40\<rfloor>" by simp
  qed
  then show ?thesis using assms by (simp add: enemyCell_def)
qed

text \<open>
  Claim C6. When a click places or removes a tower, the click block of the same
  \<open>Update\<close> returns a game in which the reference path is what \<open>findPath\<close> gives from
  spawn to base on the edited grid (\<open>pathBlocked\<close> iff that is nil), and every enemy of
  the list (the live ones among them) has the path \<open>findPath\<close> gives from the cell of
  its position to the base, with waypoint index 1; an enemy for which \<open>findPath\<close> gives
  nil is left as it was, with its previous path and index, so that the movement pass goes
  on along that path. The cell is the one enclosing the position (for a position with
  non-negative coordinates).
\<close>

theorem grid_edit_recomputes_paths:
  assumes "placed inp g \<or> removed inp g"
  shows "\<exists>g'. Update_clicks inp g = Some g'
           \<and> grid g' = (grid g)(hoverY g := (grid g (hoverY g))
                          (hoverX g := (if placed inp g then TileTower else TileGround)))
           \<and> findPath g' (spawn g') (base g') = Some (path g')
           \<and> pathBlocked g' = (path g' = None)
           \<and> length (enemies g') = length (enemies g)
           \<and> (\<forall>i < length (enemies g).
                \<exists>r. findPath g' (enemyCell (enemies g ! i)) (base g') = Some r
                   \<and> enemies g' ! i =
                       (case r of
                          Some q \<Rightarrow> (enemies g ! i)\<lparr>Path := q, PathIndex := 1\<rparr>
                        | None \<Rightarrow> enemies g ! i))
           \<and> (\<forall>e. 0 \<le> Enemy.X e \<and> 0 \<le> Enemy.Y e \<longrightarrow>
                enemyCell e = Point \<lfloor>Enemy.X e / 40\<rfloor> \<lfloor>Enemy.Y e / 40\<rfloor>)"
proof -
  define g2 where
    "g2 = (if placed inp g then snd (addTower (hoverX g) (hoverY g) g)
           else removeTower (hoverX g) (hoverY g) g)"
  have np: "\<not> placed inp g \<Longrightarrow> removed inp g" using assms by blast
  have clicks: "Update_clicks inp g = Option.bind (recalculatePath g2) recalculateEnemyPaths"
    using np by (auto simp: Update_clicks_eq g2_def)
  have g2: "grid g2 = (grid g)(hoverY g := (grid g (hoverY g))
                          (hoverX g := (if placed inp g then TileTower else TileGround)))"
    "enemies g2 = enemies g" "spawn g2 = spawn g" "base g2 = base g"
    by (auto simp: g2_def addTower_def removeTower_def placed_def)
  from regrid_returns [of g2] obtain p es' where
    r: "Option.bind (recalculatePath g2) recalculateEnemyPaths =
        Some (g2\<lparr>path := p, pathBlocked := (p = None), enemies := es'\<rparr>)"
      "findPath g2 (spawn g2) (base g2) = Some p"
      "length es' = length (enemies g2)"
      "\<forall>i < length (enemies g2).
          \<exists>r. findPath g2 (enemyCell (enemies g2 ! i)) (base g2) = Some r
             \<and> es' ! i = (case r of Some q \<Rightarrow> (enemies g2 ! i)\<lparr>Path := q, PathIndex := 1\<rparr>
                                  | None \<Rightarrow> enemies g2 ! i)"
    by blast
  let ?g' = "g2\<lparr>path := p, pathBlocked := (p = None), enemies := es'\<rparr>"
  have gr: "grid ?g' = grid g2" by simp
  have fp: "\<And>s t. findPath ?g' s t = findPath g2 s t"
    using findPath_grid [OF gr] by simp
  have 1: "Update_clicks inp g = Some ?g'" using clicks r(1) by simp
  have 2: "grid ?g' = (grid g)(hoverY g := (grid g (hoverY g))
                          (hoverX g := (if placed inp g then TileTower else TileGround)))"
    using g2(1) by simp
  have 3: "findPath ?g' (spawn ?g') (base ?g') = Some (path ?g')"
    using r(2) by (simp add: fp)
  have 4: "pathBlocked ?g' = (path ?g' = None)" by simp
  have 5: "length (enemies ?g') = length (enemies g)" using r(3) g2(2) by simp
  have 6: "\<forall>i < length (enemies g).
                \<exists>r. findPath ?g' (enemyCell (enemies g ! i)) (base ?g') = Some r
                   \<and> enemies ?g' ! i =
                       (case r of
                          Some q \<Rightarrow> (enemies g ! i)\<lparr>Path := q, PathIndex := 1\<rparr>
                        | None \<Rightarrow> enemies g ! i)"
    using r(4) unfolding g2(2) by (simp add: fp)
  have 7: "\<forall>e. 0 \<le> Enemy.X e \<and> 0 \<le> Enemy.Y e \<longrightarrow>
                enemyCell e = Point \<lfloor>Enemy.X e / 40\<rfloor> \<lfloor>Enemy.Y e / 40\<rfloor>"
    using enemyCell_enclosing by blast
  show ?thesis
    using 1 2 3 4 5 6 7 by (intro exI [of _ ?g']) (simp only: simp_thms)
qed

definition clickAt :: "int \<Rightarrow> int \<Rightarrow> bool \<Rightarrow> bool \<Rightarrow> Input" where
  "clickAt mx my l r = \<lparr>keyR = False, cursorX = mx, cursorY = my, mouseLeft = l, mouseRight = r\<rparr>"

definition line13 :: "Point list" where
  "line13 = [Point 10 1, Point 10 2, Point 10 3, Point 10 4, Point 10 5, Point 10 6,
             Point 10 7, Point 10 8, Point 10 9, Point 10 10, Point 10 11,
             Point 10 12, Point 10 13]"

theorem grid_edit_recomputes_paths_witness:
  "\<exists>g'. Update_clicks (clickAt 130 170 True False)
          ((gameOn ringGrid)\<lparr>hoverValid := True, hoverX := 3, hoverY := 4, resources := 100,
             enemies := [\<lparr>Enemy.X = 420, Enemy.Y = 380, PathIndex = 9, Path = line13, HP = 100\<rparr>]\<rparr>)
        = Some g'
     \<and> grid g' 4 3 = TileTower
     \<and> pathBlocked g' = (path g' = None)
     \<and> enemies g' =
         [\<lparr>Enemy.X = 420, Enemy.Y = 380, PathIndex = 1,
           Path = [Point 10 9, Point 10 10, Point 10 11, Point 10 12, Point 10 13], HP = 100\<rparr>]"
proof -
  let ?e = "\<lparr>Enemy.X = 420, Enemy.Y = 380, PathIndex = 9, Path = line13, HP = 100\<rparr>"
  let ?g = "(gameOn ringGrid)\<lparr>hoverValid := True, hoverX := 3, hoverY := 4, resources := 100,
             enemies := [?e]\<rparr>"
  let ?inp = "clickAt 130 170 True False"
  let ?gr = "(grid ?g)(hoverY ?g := (grid ?g (hoverY ?g))(hoverX ?g := TileTower))"
  have pl: "placed ?inp ?g"
    by (simp add: placed_def clickAt_def gameOn_def ringGrid_def GridWidth_def GridHeight_def
        TowerCost_def)
  from grid_edit_recomputes_paths [of ?inp ?g] pl obtain g' where
    g': "Update_clicks ?inp ?g = Some g'"
      "grid g' = ?gr"
      "pathBlocked g' = (path g' = None)"
      "length (enemies g') = length (enemies ?g)"
      "\<forall>i < length (enemies ?g).
          \<exists>r. findPath g' (enemyCell (enemies ?g ! i)) (base g') = Some r
             \<and> enemies g' ! i =
                 (case r of
                    Some q \<Rightarrow> (enemies ?g ! i)\<lparr>Path := q, PathIndex := 1\<rparr>
                  | None \<Rightarrow> enemies ?g ! i)"
    by auto
  have b: "base g' = Point 10 13"
    using g'(1) pl by (auto simp: Update_clicks_eq recalculatePath_def recalculateEnemyPaths_def
        addTower_def gameOn_def GridWidth_def GridHeight_def split: bind_splits)
  have cell: "enemyCell ?e = Point 10 9"
    by (simp add: enemyCell_def float_to_int_def go_div_def CellSize_def)
  have "grid ((gameOn ringGrid)\<lparr>grid := ?gr\<rparr>) = grid g'" using g'(2) by simp
  then have "findPath g' (Point 10 9) (Point 10 13)
      = findPath ((gameOn ringGrid)\<lparr>grid := ?gr\<rparr>) (Point 10 9) (Point 10 13)"
    by (rule findPath_grid [symmetric])
  also have "\<dots> = Some (Some [Point 10 9, Point 10 10, Point 10 11, Point 10 12, Point 10 13])"
    by code_simp
  finally have fp: "findPath g' (Point 10 9) (Point 10 13)
      = Some (Some [Point 10 9, Point 10 10, Point 10 11, Point 10 12, Point 10 13])" .
  have en: "enemies ?g ! 0 = ?e" by simp
  from g'(5) obtain r where
    r: "findPath g' (enemyCell (enemies ?g ! 0)) (base g') = Some r"
       "enemies g' ! 0 =
          (case r of Some q \<Rightarrow> (enemies ?g ! 0)\<lparr>Path := q, PathIndex := 1\<rparr>
                   | None \<Rightarrow> enemies ?g ! 0)"
    by auto
  have "r = Some [Point 10 9, Point 10 10, Point 10 11, Point 10 12, Point 10 13]"
    using r(1) fp unfolding en cell b by simp
  then have e0: "enemies g' ! 0 = ?e\<lparr>Path := [Point 10 9, Point 10 10, Point 10 11, Point 10 12, Point 10 13],
      PathIndex := 1\<rparr>"
    using r(2) unfolding en by simp
  have "length (enemies g') = 1" using g'(4) by simp
  then have "enemies g' = [enemies g' ! 0]"
    by (cases "enemies g'") simp_all
  then have es: "enemies g' = [\<lparr>Enemy.X = 420, Enemy.Y = 380, PathIndex = 1,
           Path = [Point 10 9, Point 10 10, Point 10 11, Point 10 12, Point 10 13], HP = 100\<rparr>]"
    using e0 by simp
  have tw: "grid g' 4 3 = TileTower" using g'(2) by simp
  show ?thesis
    by (rule exI [of _ g'], intro conjI) (rule g'(1), rule tw, rule g'(3), rule es)
qed

section \<open>What each pass of a tick changes\<close>

lemma updateTowers_fields [simp]:
  "resources (updateTowers g) = resources g"
  "totalKills (updateTowers g) = totalKills g"
  "state (updateTowers g) = state g"
  "waveDelay (updateTowers g) = waveDelay g"
  "enemiesThisWave (updateTowers g) = enemiesThisWave g"
  "currentWave (updateTowers g) = currentWave g"
  "spawnTimer (updateTowers g) = spawnTimer g"
  "grid (updateTowers g) = grid g"
  "path (updateTowers g) = path g"
  "pathBlocked (updateTowers g) = pathBlocked g"
  "spawn (updateTowers g) = spawn g"
  "base (updateTowers g) = base g"
  "hoverValid (updateTowers g) = hoverValid g"
  "hoverX (updateTowers g) = hoverX g"
  "hoverY (updateTowers g) = hoverY g"
  "length (enemies (updateTowers g)) = length (enemies g)"
  "length (towers (updateTowers g)) = length (towers g)"
  using updateTowers_frame [of g] by auto

lemma updateTowers_no_enemies [simp]: "enemies g = [] \<Longrightarrow> enemies (updateTowers g) = []"
proof -
  assume "enemies g = []"
  then have "length (enemies (updateTowers g)) = 0" by simp
  then show ?thesis by (simp only: length_0_conv)
qed

lemma updateLasers_fields [simp]:
  "resources (updateLasers g) = resources g"
  "totalKills (updateLasers g) = totalKills g"
  "state (updateLasers g) = state g"
  "waveDelay (updateLasers g) = waveDelay g"
  "enemiesThisWave (updateLasers g) = enemiesThisWave g"
  "currentWave (updateLasers g) = currentWave g"
  "spawnTimer (updateLasers g) = spawnTimer g"
  "grid (updateLasers g) = grid g"
  "path (updateLasers g) = path g"
  "pathBlocked (updateLasers g) = pathBlocked g"
  "spawn (updateLasers g) = spawn g"
  "base (updateLasers g) = base g"
  "enemies (updateLasers g) = enemies g"
  "towers (updateLasers g) = towers g"
  by (simp_all add: updateLasers_def)

lemma Update_hover_fields [simp]:
  "resources (Update_hover inp g) = resources g"
  "totalKills (Update_hover inp g) = totalKills g"
  "state (Update_hover inp g) = state g"
  "waveDelay (Update_hover inp g) = waveDelay g"
  "enemiesThisWave (Update_hover inp g) = enemiesThisWave g"
  "currentWave (Update_hover inp g) = currentWave g"
  "spawnTimer (Update_hover inp g) = spawnTimer g"
  "grid (Update_hover inp g) = grid g"
  "path (Update_hover inp g) = path g"
  "pathBlocked (Update_hover inp g) = pathBlocked g"
  "spawn (Update_hover inp g) = spawn g"
  "base (Update_hover inp g) = base g"
  "enemies (Update_hover inp g) = enemies g"
  "towers (Update_hover inp g) = towers g"
  "lasers (Update_hover inp g) = lasers g"
  by (simp_all add: Update_hover_def Let_def)

lemma updateEnemies_fields [simp]:
  "resources (updateEnemies g) =
     resources g + KillReward * int (length (filter (\<lambda>e. HP e \<le> 0) (enemies g)))"
  "totalKills (updateEnemies g) =
     totalKills g + int (length (filter (\<lambda>e. HP e \<le> 0) (enemies g)))"
  "state (updateEnemies g) =
     (if \<exists>e \<in> set (enemies g). \<not> HP e \<le> 0 \<and> length (Path e) \<le> PathIndex e
      then StateLost else state g)"
  "enemies (updateEnemies g) =
     map moveEnemy (filter (\<lambda>e. \<not> HP e \<le> 0 \<and> PathIndex e < length (Path e)) (enemies g))"
  "waveDelay (updateEnemies g) = waveDelay g"
  "enemiesThisWave (updateEnemies g) = enemiesThisWave g"
  "currentWave (updateEnemies g) = currentWave g"
  "spawnTimer (updateEnemies g) = spawnTimer g"
  "grid (updateEnemies g) = grid g"
  "path (updateEnemies g) = path g"
  "pathBlocked (updateEnemies g) = pathBlocked g"
  "spawn (updateEnemies g) = spawn g"
  "base (updateEnemies g) = base g"
  "towers (updateEnemies g) = towers g"
  "lasers (updateEnemies g) = lasers g"
  by (simp_all add: updateEnemies_eq)

text \<open>What the click block leaves alone, and what it does to the resources.\<close>

lemma Update_clicks_returns:
  "\<exists>g'. Update_clicks inp g = Some g'
     \<and> state g' = state g \<and> totalKills g' = totalKills g
     \<and> waveDelay g' = waveDelay g \<and> enemiesThisWave g' = enemiesThisWave g
     \<and> currentWave g' = currentWave g \<and> spawnTimer g' = spawnTimer g
     \<and> spawn g' = spawn g \<and> base g' = base g \<and> lasers g' = lasers g
     \<and> length (enemies g') = length (enemies g)
     \<and> resources g' =
         (if placed inp g then resources g - TowerCost
          else if removed inp g then resources g + TowerCost div 2
          else resources g)"
proof -
  have re: "\<exists>g'. Option.bind (recalculatePath g2) recalculateEnemyPaths = Some g'
     \<and> state g' = state g2 \<and> totalKills g' = totalKills g2
     \<and> waveDelay g' = waveDelay g2 \<and> enemiesThisWave g' = enemiesThisWave g2
     \<and> currentWave g' = currentWave g2 \<and> spawnTimer g' = spawnTimer g2
     \<and> spawn g' = spawn g2 \<and> base g' = base g2 \<and> lasers g' = lasers g2
     \<and> length (enemies g') = length (enemies g2)
     \<and> resources g' = resources g2" for g2
    using regrid_returns [of g2] by auto
  show ?thesis
  proof (cases "placed inp g")
    case True
    then have "Update_clicks inp g =
        Option.bind (recalculatePath (snd (addTower (hoverX g) (hoverY g) g))) recalculateEnemyPaths"
      by (simp add: Update_clicks_eq)
    moreover have "TowerCost \<le> resources g" using True by (simp add: placed_def)
    ultimately show ?thesis
      using re [of "snd (addTower (hoverX g) (hoverY g) g)"] True
      by (auto simp: addTower_def)
  next
    case np: False
    show ?thesis
    proof (cases "removed inp g")
      case True
      then have "Update_clicks inp g =
          Option.bind (recalculatePath (removeTower (hoverX g) (hoverY g) g)) recalculateEnemyPaths"
        using np by (simp add: Update_clicks_eq)
      then show ?thesis
        using re [of "removeTower (hoverX g) (hoverY g) g"] True np
        by (auto simp: removeTower_def)
    next
      case False
      then show ?thesis using np by (simp add: Update_clicks_eq)
    qed
  qed
qed

lemma Update_clicks_no_enemies:
  "enemies g = [] \<Longrightarrow> Update_clicks inp g = Some g' \<Longrightarrow> enemies g' = []"
  using Update_clicks_returns [of inp g] by auto

lemma NewGame_returns:
  "\<exists>g. NewGame = Some g \<and> state g = StatePlaying \<and> resources g = StartingResource
     \<and> totalKills g = 0 \<and> enemies g = [] \<and> towers g = [] \<and> currentWave g = 1
     \<and> enemiesThisWave g = EnemiesPerWave \<and> waveDelay g = 300 \<and> spawnTimer g = 0
     \<and> grid g = NewGame_grid"
proof -
  let ?g0 = "\<lparr>grid = NewGame_grid, hoverX = 0, hoverY = 0, hoverValid = False,
               spawn = Point (GridWidth div 2) 1,
               base = Point (GridWidth div 2) (GridHeight - 2),
               path = None, pathBlocked = False, enemies = [], spawnTimer = 0,
               towers = [], lasers = [], state = StatePlaying, resources = 0,
               currentWave = 0, enemiesThisWave = 0, waveDelay = 0, totalKills = 0\<rparr>"
  from recalculatePath_returns [of ?g0] obtain p where
    "recalculatePath ?g0 = Some (?g0\<lparr>path := p, pathBlocked := (p = None)\<rparr>)" by blast
  then show ?thesis by (simp add: NewGame_def)
qed

lemma Update_returns: "\<exists>g'. Update inp g = Some g'"
proof (cases "state g = StatePlaying")
  case True
  then show ?thesis
    using Update_clicks_returns [of inp "Update_passes inp g"] by (auto simp: Update_playing)
next
  case False
  then show ?thesis using NewGame_returns by (auto simp: Update_def)
qed

section \<open>Rejected clicks\<close>

text \<open>
  Claim C7 (as amended). A click that places no tower and removes none leaves the whole
  game as it is, the grid, the tower list and the resource counter included: that is a
  left click on a cell that is not ground or with fewer resources than \<open>TowerCost\<close>,
  and a right click on a cell that holds no tower. The tile type is tested by \<open>Update\<close>
  before it calls \<open>addTower\<close> or \<open>removeTower\<close>; the only rejection that a call signals
  is \<open>addTower\<close> returning false, unchanged, when the resources are insufficient.
\<close>

theorem rejected_click_changes_nothing:
  "(resources g < TowerCost \<longrightarrow> addTower x y g = (False, g))
   \<and> (mouseLeft inp \<and> \<not> mouseRight inp
        \<and> (grid g (hoverY g) (hoverX g) \<noteq> TileGround \<or> resources g < TowerCost)
      \<longrightarrow> Update_clicks inp g = Some g)
   \<and> (mouseRight inp \<and> \<not> mouseLeft inp \<and> grid g (hoverY g) (hoverX g) \<noteq> TileTower
      \<longrightarrow> Update_clicks inp g = Some g)
   \<and> (\<not> placed inp g \<and> \<not> removed inp g \<longrightarrow> Update_clicks inp g = Some g)"
proof -
  have 1: "resources g < TowerCost \<longrightarrow> addTower x y g = (False, g)"
    by (simp add: addTower_def)
  have 4: "\<not> placed inp g \<and> \<not> removed inp g \<longrightarrow> Update_clicks inp g = Some g"
    by (simp add: Update_clicks_eq)
  have 2: "mouseLeft inp \<and> \<not> mouseRight inp
        \<and> (grid g (hoverY g) (hoverX g) \<noteq> TileGround \<or> resources g < TowerCost)
      \<longrightarrow> Update_clicks inp g = Some g"
    using 4 by (auto simp: placed_def removed_def)
  have 3: "mouseRight inp \<and> \<not> mouseLeft inp \<and> grid g (hoverY g) (hoverX g) \<noteq> TileTower
      \<longrightarrow> Update_clicks inp g = Some g"
    using 4 by (auto simp: placed_def removed_def)
  show ?thesis using 1 2 3 4 by blast
qed

theorem rejected_click_changes_nothing_witness:
  "addTower 3 4 ((gameOn ringGrid)\<lparr>resources := 24\<rparr>) = (False, (gameOn ringGrid)\<lparr>resources := 24\<rparr>)
   \<and> Update_clicks (clickAt 10 10 True False)
        ((gameOn ringGrid)\<lparr>hoverValid := True, resources := 100\<rparr>)
      = Some ((gameOn ringGrid)\<lparr>hoverValid := True, resources := 100\<rparr>)
   \<and> Update_clicks (clickAt 130 170 True False)
        ((gameOn ringGrid)\<lparr>hoverValid := True, hoverX := 3, hoverY := 4, resources := 24\<rparr>)
      = Some ((gameOn ringGrid)\<lparr>hoverValid := True, hoverX := 3, hoverY := 4, resources := 24\<rparr>)
   \<and> Update_clicks (clickAt 130 170 False True)
        ((gameOn ringGrid)\<lparr>hoverValid := True, hoverX := 3, hoverY := 4, resources := 100\<rparr>)
      = Some ((gameOn ringGrid)\<lparr>hoverValid := True, hoverX := 3, hoverY := 4, resources := 100\<rparr>)"
proof -
  let ?a = "(gameOn ringGrid)\<lparr>resources := 24\<rparr>"
  let ?b = "(gameOn ringGrid)\<lparr>hoverValid := True, resources := 100\<rparr>"
  let ?c = "(gameOn ringGrid)\<lparr>hoverValid := True, hoverX := 3, hoverY := 4, resources := 24\<rparr>"
  let ?d = "(gameOn ringGrid)\<lparr>hoverValid := True, hoverX := 3, hoverY := 4, resources := 100\<rparr>"
  have a: "resources ?a < TowerCost" by (simp add: TowerCost_def)
  have b: "mouseLeft (clickAt 10 10 True False) \<and> \<not> mouseRight (clickAt 10 10 True False)
      \<and> (grid ?b (hoverY ?b) (hoverX ?b) \<noteq> TileGround \<or> resources ?b < TowerCost)"
    by (simp add: clickAt_def gameOn_def ringGrid_def GridWidth_def GridHeight_def)
  have c: "mouseLeft (clickAt 130 170 True False) \<and> \<not> mouseRight (clickAt 130 170 True False)
      \<and> (grid ?c (hoverY ?c) (hoverX ?c) \<noteq> TileGround \<or> resources ?c < TowerCost)"
    by (simp add: clickAt_def TowerCost_def)
  have d: "mouseRight (clickAt 130 170 False True) \<and> \<not> mouseLeft (clickAt 130 170 False True)
      \<and> grid ?d (hoverY ?d) (hoverX ?d) \<noteq> TileTower"
    by (simp add: clickAt_def gameOn_def ringGrid_def GridWidth_def GridHeight_def)
  have 1: "addTower 3 4 ?a = (False, ?a)"
    by (rule mp [OF conjunct1 [OF rejected_click_changes_nothing] a])
  have 2: "Update_clicks (clickAt 10 10 True False) ?b = Some ?b"
    by (rule mp [OF conjunct1 [OF conjunct2 [OF rejected_click_changes_nothing]] b])
  have 3: "Update_clicks (clickAt 130 170 True False) ?c = Some ?c"
    by (rule mp [OF conjunct1 [OF conjunct2 [OF rejected_click_changes_nothing]] c])
  have 4: "Update_clicks (clickAt 130 170 False True) ?d = Some ?d"
    by (rule mp [OF conjunct1 [OF conjunct2 [OF conjunct2 [OF rejected_click_changes_nothing]]] d])
  show ?thesis
    by (intro conjI) (rule 1, rule 2, rule 3, rule 4)
qed

text \<open>The calls themselves do not test the tile: on the wall cell (0,0), which holds no
  tower, \<open>addTower\<close> returns true and puts a tower there for 25 resources, and
  \<open>removeTower\<close> turns the wall into ground and refunds 12.\<close>

theorem tower_calls_counterexample:
  "grid ((gameOn ringGrid)\<lparr>resources := 100\<rparr>) 0 0 = TileWall
   \<and> towers ((gameOn ringGrid)\<lparr>resources := 100\<rparr>) = []
   \<and> fst (addTower 0 0 ((gameOn ringGrid)\<lparr>resources := 100\<rparr>)) = True
   \<and> grid (snd (addTower 0 0 ((gameOn ringGrid)\<lparr>resources := 100\<rparr>))) 0 0 = TileTower
   \<and> resources (snd (addTower 0 0 ((gameOn ringGrid)\<lparr>resources := 100\<rparr>))) = 75
   \<and> grid (removeTower 0 0 ((gameOn ringGrid)\<lparr>resources := 100\<rparr>)) 0 0 = TileGround
   \<and> resources (removeTower 0 0 ((gameOn ringGrid)\<lparr>resources := 100\<rparr>)) = 112"
  by (simp add: addTower_def removeTower_def gameOn_def ringGrid_def GridWidth_def
      GridHeight_def TowerCost_def)

section \<open>Spawning on a blocked path\<close>

text \<open>
  Claim C10. When the spawn timer expires while the reference path is blocked or empty,
  the wave logic creates no enemy, and still decrements the wave's count of enemies to
  spawn and resets the spawn timer to \<open>SpawnInterval\<close>. The enemy is never made up for:
  when that was the last enemy of the wave and no enemy is alive, the next tick starts
  the next wave, with no enemy created and no kill counted.
\<close>

theorem blocked_spawn_is_skipped:
  "(waveDelay g \<le> 0 \<and> 0 < enemiesThisWave g \<and> spawnTimer g \<le> 1
      \<and> (pathBlocked g \<or> path g = None \<or> path g = Some [])
    \<longrightarrow> enemies (Update_waves g) = enemies g
        \<and> enemiesThisWave (Update_waves g) = enemiesThisWave g - 1
        \<and> spawnTimer (Update_waves g) = SpawnInterval)
   \<and> (state g = StatePlaying \<and> waveDelay g \<le> 0 \<and> enemiesThisWave g = 1 \<and> spawnTimer g \<le> 1
      \<and> pathBlocked g \<and> enemies g = [] \<and> currentWave g < TotalWaves
    \<longrightarrow> (\<exists>g1 g2. Update inp1 g = Some g1 \<and> Update inp2 g1 = Some g2
          \<and> enemies g1 = [] \<and> enemiesThisWave g1 = 0 \<and> state g1 = StatePlaying
          \<and> enemies g2 = [] \<and> currentWave g2 = currentWave g + 1
          \<and> enemiesThisWave g2 = EnemiesPerWave + (currentWave g + 1)
          \<and> totalKills g2 = totalKills g))"
proof -
  have A: "enemies (Update_waves g) = enemies g
        \<and> enemiesThisWave (Update_waves g) = enemiesThisWave g - 1
        \<and> spawnTimer (Update_waves g) = SpawnInterval"
    if "waveDelay g \<le> 0" "0 < enemiesThisWave g" "spawnTimer g \<le> 1"
      "pathBlocked g \<or> path g = None \<or> path g = Some []"
    using that by (auto simp: Update_waves_def spawnEnemy_def Let_def)
  have B: "\<exists>g1 g2. Update inp1 g = Some g1 \<and> Update inp2 g1 = Some g2
          \<and> enemies g1 = [] \<and> enemiesThisWave g1 = 0 \<and> state g1 = StatePlaying
          \<and> enemies g2 = [] \<and> currentWave g2 = currentWave g + 1
          \<and> enemiesThisWave g2 = EnemiesPerWave + (currentWave g + 1)
          \<and> totalKills g2 = totalKills g"
    if h: "state g = StatePlaying" "waveDelay g \<le> 0" "enemiesThisWave g = 1" "spawnTimer g \<le> 1"
      "pathBlocked g" "enemies g = []" "currentWave g < TotalWaves"
  proof -
    have w1: "enemies (Update_waves g) = []" "enemiesThisWave (Update_waves g) = 0"
      "state (Update_waves g) = StatePlaying" "waveDelay (Update_waves g) = waveDelay g"
      "currentWave (Update_waves g) = currentWave g" "totalKills (Update_waves g) = totalKills g"
      using h by (auto simp: Update_waves_def spawnEnemy_def Let_def)
    let ?p1 = "Update_passes inp1 g"
    have p1: "enemies ?p1 = []" "enemiesThisWave ?p1 = 0" "state ?p1 = StatePlaying"
      "waveDelay ?p1 = waveDelay g" "currentWave ?p1 = currentWave g"
      "totalKills ?p1 = totalKills g"
      using w1 by (simp_all add: Update_passes_def)
    from Update_clicks_returns [of inp1 ?p1] obtain g1 where
      g1: "Update_clicks inp1 ?p1 = Some g1" "state g1 = state ?p1" "totalKills g1 = totalKills ?p1"
        "waveDelay g1 = waveDelay ?p1" "enemiesThisWave g1 = enemiesThisWave ?p1"
        "currentWave g1 = currentWave ?p1" "length (enemies g1) = length (enemies ?p1)"
      by blast
    have u1: "Update inp1 g = Some g1" using h(1) g1(1) by (simp add: Update_playing)
    have e1: "enemies g1 = []" using g1(7) p1(1) by simp
    have s1: "state g1 = StatePlaying" "enemiesThisWave g1 = 0" "waveDelay g1 \<le> 0"
      "currentWave g1 = currentWave g" "totalKills g1 = totalKills g"
      using g1 p1 h by simp_all
    have w2: "enemies (Update_waves g1) = []"
      "currentWave (Update_waves g1) = currentWave g + 1"
      "enemiesThisWave (Update_waves g1) = EnemiesPerWave + (currentWave g + 1)"
      "totalKills (Update_waves g1) = totalKills g"
      using e1 s1 h(7) by (auto simp: Update_waves_def Let_def)
    let ?p2 = "Update_passes inp2 g1"
    have p2: "enemies ?p2 = []" "currentWave ?p2 = currentWave g + 1"
      "enemiesThisWave ?p2 = EnemiesPerWave + (currentWave g + 1)"
      "totalKills ?p2 = totalKills g"
      using w2 by (simp_all add: Update_passes_def)
    from Update_clicks_returns [of inp2 ?p2] obtain g2 where
      g2: "Update_clicks inp2 ?p2 = Some g2" "totalKills g2 = totalKills ?p2"
        "enemiesThisWave g2 = enemiesThisWave ?p2"
        "currentWave g2 = currentWave ?p2" "length (enemies g2) = length (enemies ?p2)"
      by blast
    have u2: "Update inp2 g1 = Some g2" using s1(1) g2(1) by (simp add: Update_playing)
    have e2: "enemies g2 = []" using g2(5) p2(1) by simp
    show ?thesis using u1 u2 e1 s1 e2 g2 p2 by auto
  qed
  show ?thesis using A B by blast
qed

theorem blocked_spawn_is_skipped_witness:
  "enemies (Update_waves ((gameOn ringGrid)\<lparr>pathBlocked := True, spawnTimer := 1,
       currentWave := 1, enemiesThisWave := 1\<rparr>)) = []
   \<and> enemiesThisWave (Update_waves ((gameOn ringGrid)\<lparr>pathBlocked := True, spawnTimer := 1,
       currentWave := 1, enemiesThisWave := 1\<rparr>)) = 0
   \<and> spawnTimer (Update_waves ((gameOn ringGrid)\<lparr>pathBlocked := True, spawnTimer := 1,
       currentWave := 1, enemiesThisWave := 1\<rparr>)) = 40
   \<and> (\<exists>g1 g2. Update (clickAt 0 0 False False) ((gameOn ringGrid)\<lparr>pathBlocked := True,
           spawnTimer := 1, currentWave := 1, enemiesThisWave := 1\<rparr>) = Some g1
        \<and> Update (clickAt 0 0 False False) g1 = Some g2
        \<and> enemies g1 = [] \<and> enemies g2 = [] \<and> currentWave g2 = 2
        \<and> enemiesThisWave g2 = 7 \<and> totalKills g2 = 0)"
proof -
  let ?g = "(gameOn ringGrid)\<lparr>pathBlocked := True, spawnTimer := 1,
       currentWave := 1, enemiesThisWave := 1\<rparr>"
  let ?i = "clickAt 0 0 False False"
  have a: "waveDelay ?g \<le> 0 \<and> 0 < enemiesThisWave ?g \<and> spawnTimer ?g \<le> 1
      \<and> (pathBlocked ?g \<or> path ?g = None \<or> path ?g = Some [])"
    by (simp add: gameOn_def)
  have b: "state ?g = StatePlaying \<and> waveDelay ?g \<le> 0 \<and> enemiesThisWave ?g = 1
      \<and> spawnTimer ?g \<le> 1 \<and> pathBlocked ?g \<and> enemies ?g = [] \<and> currentWave ?g < TotalWaves"
    by (simp add: gameOn_def TotalWaves_def)
  have 1: "enemies (Update_waves ?g) = enemies ?g
        \<and> enemiesThisWave (Update_waves ?g) = enemiesThisWave ?g - 1
        \<and> spawnTimer (Update_waves ?g) = SpawnInterval"
    by (rule mp [OF conjunct1 [OF blocked_spawn_is_skipped] a])
  have 2: "\<exists>g1 g2. Update ?i ?g = Some g1 \<and> Update ?i g1 = Some g2
          \<and> enemies g1 = [] \<and> enemiesThisWave g1 = 0 \<and> state g1 = StatePlaying
          \<and> enemies g2 = [] \<and> currentWave g2 = currentWave ?g + 1
          \<and> enemiesThisWave g2 = EnemiesPerWave + (currentWave ?g + 1)
          \<and> totalKills g2 = totalKills ?g"
    by (rule mp [OF conjunct2 [OF blocked_spawn_is_skipped] b])
  have 3: "enemies ?g = []" "enemiesThisWave ?g - 1 = 0" "SpawnInterval = 40"
    "currentWave ?g + 1 = 2" "EnemiesPerWave + (currentWave ?g + 1) = 7" "totalKills ?g = 0"
    by (simp_all add: gameOn_def SpawnInterval_def EnemiesPerWave_def)
  from 2 obtain g1 g2 where g: "Update ?i ?g = Some g1" "Update ?i g1 = Some g2"
    "enemies g1 = []" "enemies g2 = []" "currentWave g2 = currentWave ?g + 1"
    "enemiesThisWave g2 = EnemiesPerWave + (currentWave ?g + 1)" "totalKills g2 = totalKills ?g"
    by blast
  have c: "currentWave g2 = 2" using g(5) 3(4) by simp
  have e: "enemiesThisWave g2 = 7" using g(6) 3(5) by simp
  have k: "totalKills g2 = 0" using g(7) 3(6) by simp
  have 4: "\<exists>g1 g2. Update ?i ?g = Some g1 \<and> Update ?i g1 = Some g2
        \<and> enemies g1 = [] \<and> enemies g2 = [] \<and> currentWave g2 = 2
        \<and> enemiesThisWave g2 = 7 \<and> totalKills g2 = 0"
    by (rule exI [of _ g1], rule exI [of _ g2], intro conjI)
       (rule g(1), rule g(2), rule g(3), rule g(4), rule c, rule e, rule k)
  have 5: "enemies (Update_waves ?g) = []" using 1 3(1) by simp
  have 6: "enemiesThisWave (Update_waves ?g) = 0" using 1 3(2) by simp
  have 7: "spawnTimer (Update_waves ?g) = 40" using 1 3(3) by simp
  show ?thesis
    by (intro conjI) (rule 5, rule 6, rule 7, rule 4)
qed

section \<open>The order of the passes in a tick\<close>

lemma Update_waves_enemies:
  "enemies (Update_waves g) = enemies g
   \<or> (\<exists>e. enemies (Update_waves g) = enemies g @ [e] \<and> HP e = EnemyMaxHP)"
  by (auto simp: Update_waves_def spawnEnemy_def Let_def)

lemma Update_waves_dead:
  "filter (\<lambda>e. HP e \<le> 0) (enemies (Update_waves g)) = filter (\<lambda>e. HP e \<le> 0) (enemies g)"
  using Update_waves_enemies [of g] by (auto simp: EnemyMaxHP_def)

lemma Update_waves_fields [simp]:
  "resources (Update_waves g) = resources g"
  "totalKills (Update_waves g) = totalKills g"
  "grid (Update_waves g) = grid g"
  "towers (Update_waves g) = towers g"
  "lasers (Update_waves g) = lasers g"
  "spawn (Update_waves g) = spawn g"
  "base (Update_waves g) = base g"
  "path (Update_waves g) = path g"
  "pathBlocked (Update_waves g) = pathBlocked g"
  by (auto simp: Update_waves_def spawnEnemy_def Let_def)

text \<open>
  Claim C1 (as amended). In a playing tick the dead enemies are removed by the movement
  pass, which runs before the tower pass: every enemy whose health is at or below zero
  at the start of the tick is removed in that tick, and the kill counter and the
  resource ledger are credited for it in that tick (the ledger before the click block
  spends or refunds). After the movement pass no enemy of the list has health at or
  below zero, and the passes after it remove no enemy: an enemy that the tower pass
  brings to zero stays in the list when the tick ends. What does run after the tower
  pass is the expiry of the lasers: none with no lifetime left is in the list then.
\<close>

theorem dead_enemies_removed_by_movement_pass:
  "state g = StatePlaying \<longrightarrow>
     (\<exists>g'. Update inp g = Some g'
        \<and> totalKills g' = totalKills g + int (length (filter (\<lambda>e. HP e \<le> 0) (enemies g)))
        \<and> resources (Update_passes inp g) =
            resources g + KillReward * int (length (filter (\<lambda>e. HP e \<le> 0) (enemies g)))
        \<and> list_all (\<lambda>e. 0 < HP e) (enemies (updateEnemies (Update_waves g)))
        \<and> length (enemies g') = length (enemies (updateEnemies (Update_waves g)))
        \<and> list_all (\<lambda>l. 0 < TTL l) (lasers g'))"
proof
  assume pl: "state g = StatePlaying"
  let ?p = "Update_passes inp g"
  from Update_clicks_returns [of inp ?p] obtain g' where
    g': "Update_clicks inp ?p = Some g'" "totalKills g' = totalKills ?p"
      "length (enemies g') = length (enemies ?p)" "lasers g' = lasers ?p" by blast
  have u: "Update inp g = Some g'" using pl g'(1) by (simp add: Update_playing)
  have k: "totalKills ?p = totalKills g + int (length (filter (\<lambda>e. HP e \<le> 0) (enemies g)))"
    by (simp add: Update_passes_def Update_waves_dead)
  have r: "resources ?p =
      resources g + KillReward * int (length (filter (\<lambda>e. HP e \<le> 0) (enemies g)))"
    by (simp add: Update_passes_def Update_waves_dead)
  have a: "list_all (\<lambda>e. 0 < HP e) (enemies (updateEnemies (Update_waves g)))"
    by (auto simp: list_all_iff)
  have l: "length (enemies ?p) = length (enemies (updateEnemies (Update_waves g)))"
    by (simp add: Update_passes_def)
  have z: "list_all (\<lambda>l. 0 < TTL l) (lasers g')"
    unfolding g'(4) by (simp add: Update_passes_def updateLasers_def list_all_iff)
  show "\<exists>g'. Update inp g = Some g'
        \<and> totalKills g' = totalKills g + int (length (filter (\<lambda>e. HP e \<le> 0) (enemies g)))
        \<and> resources (Update_passes inp g) =
            resources g + KillReward * int (length (filter (\<lambda>e. HP e \<le> 0) (enemies g)))
        \<and> list_all (\<lambda>e. 0 < HP e) (enemies (updateEnemies (Update_waves g)))
        \<and> length (enemies g') = length (enemies (updateEnemies (Update_waves g)))
        \<and> list_all (\<lambda>l. 0 < TTL l) (lasers g')"
    using u g'(2) g'(3) k r a l z by (intro exI [of _ g']) simp
qed

text \<open>
  A tower at cell (6,5), ready to fire, and the last enemy of the last wave one cell to
  its left, with 10 health left, at the centre of the waypoint it is heading to.
\<close>

definition duel :: Game where
  "duel = (gameOn ringGrid)
     \<lparr>grid := ringGrid(5 := (ringGrid 5)(6 := TileTower)),
      towers := [\<lparr>Tower.X = 6, Tower.Y = 5, Cooldown = 0\<rparr>],
      enemies := [\<lparr>Enemy.X = 220, Enemy.Y = 220, PathIndex = 2,
                   Path = [Point 5 3, Point 5 4, Point 5 5, Point 5 6, Point 5 7], HP = 10\<rparr>],
      resources := 50, currentWave := 5, totalKills := 38\<rparr>"

definition noInput :: Input where
  "noInput = clickAt 0 0 False False"

definition duel1 :: Game where
  "duel1 = duel
     \<lparr>towers := [\<lparr>Tower.X = 6, Tower.Y = 5, Cooldown = 30\<rparr>],
      enemies := [\<lparr>Enemy.X = 220, Enemy.Y = 220, PathIndex = 3,
                   Path = [Point 5 3, Point 5 4, Point 5 5, Point 5 6, Point 5 7], HP = 0\<rparr>],
      lasers := [\<lparr>FromX = 260, FromY = 220, ToX = 220, ToY = 220, TTL = 4\<rparr>],
      hoverValid := True\<rparr>"

lemma sqrt_1600: "sqrt 1600 = 40"
  by (rule real_sqrt_unique) simp_all

lemma duel_tick: "Update noInput duel = Some duel1"
proof -
  have w: "Update_waves duel = duel"
    by (simp add: Update_waves_def duel_def gameOn_def)
  have m: "moveEnemy \<lparr>Enemy.X = 220, Enemy.Y = 220, PathIndex = 2,
                   Path = [Point 5 3, Point 5 4, Point 5 5, Point 5 6, Point 5 7], HP = 10\<rparr>
      = \<lparr>Enemy.X = 220, Enemy.Y = 220, PathIndex = 3,
                   Path = [Point 5 3, Point 5 4, Point 5 5, Point 5 6, Point 5 7], HP = 10\<rparr>"
    by (simp add: moveEnemy_def cellCenter_def CellSize_def EnemySpeed_def Let_def
        numeral_2_eq_2)
  let ?e = "\<lparr>Enemy.X = 220, Enemy.Y = 220, PathIndex = 3,
                   Path = [Point 5 3, Point 5 4, Point 5 5, Point 5 6, Point 5 7], HP = 10\<rparr>"
  have e: "updateEnemies duel = duel\<lparr>enemies := [?e]\<rparr>"
    by (simp add: updateEnemies_def duel_def gameOn_def m)
  have f: "findTarget 260 220 [?e] 0 None (- 1) = Some 0"
    by (simp add: Let_def TowerRange_def sqrt_1600)
  have t: "updateTowers (duel\<lparr>enemies := [?e]\<rparr>) =
      duel\<lparr>towers := [\<lparr>Tower.X = 6, Tower.Y = 5, Cooldown = 30\<rparr>],
           enemies := [?e\<lparr>HP := 0\<rparr>],
           lasers := [\<lparr>FromX = 260, FromY = 220, ToX = 220, ToY = 220, TTL = 5\<rparr>]\<rparr>"
    by (simp add: updateTowers_def updateTower_def duel_def gameOn_def cellCenter_def
        CellSize_def f Let_def TowerDamage_def TowerCooldown_def LaserDuration_def
        TowerRange_def sqrt_1600)
  have "Update_passes noInput duel = duel1"
    unfolding Update_passes_def w e t
    by (simp add: updateLasers_def Update_hover_def noInput_def clickAt_def go_div_def
        CellSize_def GridWidth_def GridHeight_def duel1_def duel_def gameOn_def Let_def)
  moreover have "Update_clicks noInput duel1 = Some duel1"
    by (simp add: Update_clicks_eq placed_def removed_def noInput_def clickAt_def)
  moreover have "state duel = StatePlaying" by (simp add: duel_def gameOn_def)
  ultimately show ?thesis by (simp add: Update_playing)
qed

theorem cleanup_same_tick_counterexample:
  "Update noInput duel = Some duel1
   \<and> map HP (enemies duel1) = [0]
   \<and> resources duel1 = resources duel
   \<and> totalKills duel1 = totalKills duel"
  using duel_tick by (simp add: duel1_def)

lemma duel1_facts:
  "state duel1 = StatePlaying" "waveDelay duel1 = 0" "enemiesThisWave duel1 = 0"
  "currentWave duel1 = 5" "totalKills duel1 = 38" "resources duel1 = 50"
  "enemies duel1 = [\<lparr>Enemy.X = 220, Enemy.Y = 220, PathIndex = 3,
                   Path = [Point 5 3, Point 5 4, Point 5 5, Point 5 6, Point 5 7], HP = 0\<rparr>]"
  by (simp_all add: duel1_def duel_def gameOn_def)

theorem dead_enemies_removed_by_movement_pass_witness:
  "\<exists>g'. Update noInput duel1 = Some g'
     \<and> totalKills g' = 39
     \<and> resources (Update_passes noInput duel1) = 60
     \<and> enemies g' = []"
proof -
  have w: "Update_waves duel1 = duel1"
    by (simp add: Update_waves_def duel1_facts)
  have d: "int (length (filter (\<lambda>e. HP e \<le> 0) (enemies duel1))) = 1"
    by (simp add: duel1_facts)
  have n: "length (enemies (updateEnemies (Update_waves duel1))) = 0"
    unfolding w by (simp add: duel1_facts)
  from dead_enemies_removed_by_movement_pass [of duel1 noInput] duel1_facts(1)
  obtain g' where g': "Update noInput duel1 = Some g'"
    "totalKills g' = totalKills duel1 + int (length (filter (\<lambda>e. HP e \<le> 0) (enemies duel1)))"
    "resources (Update_passes noInput duel1) =
       resources duel1 + KillReward * int (length (filter (\<lambda>e. HP e \<le> 0) (enemies duel1)))"
    "length (enemies g') = length (enemies (updateEnemies (Update_waves duel1)))"
    by blast
  have 1: "totalKills g' = 39" using g'(2) unfolding d by (simp add: duel1_facts)
  have 2: "resources (Update_passes noInput duel1) = 60"
    using g'(3) unfolding d by (simp add: duel1_facts KillReward_def)
  have 3: "enemies g' = []" using g'(4) n by simp
  show ?thesis
    by (rule exI [of _ g'], intro conjI) (rule g'(1), rule 1, rule 2, rule 3)
qed




section \<open>The cooldown of a tower\<close>

text \<open>The tower after the ticks in which \<open>updateTowers\<close> runs its loop body on it, in
  the games \<open>gs\<close> one after the other.\<close>

fun towerAfter :: "Tower \<Rightarrow> Game list \<Rightarrow> Tower" where
  "towerAfter t [] = t"
| "towerAfter t (g # gs) = towerAfter (fst (updateTower t g)) gs"

text \<open>The loop body fires: it emits a laser.\<close>

definition fires :: "Tower \<Rightarrow> Game \<Rightarrow> bool" where
  "fires t g = (length (lasers (snd (updateTower t g))) = Suc (length (lasers g)))"

text \<open>An enemy that the target search of the tower accepts: alive and in range.\<close>

definition targetable :: "Tower \<Rightarrow> Enemy \<Rightarrow> bool" where
  "targetable t e =
     (\<not> HP e \<le> 0
      \<and> \<not> sqrt ((Enemy.X e - cellCenter (Tower.X t)) * (Enemy.X e - cellCenter (Tower.X t))
                + (Enemy.Y e - cellCenter (Tower.Y t)) * (Enemy.Y e - cellCenter (Tower.Y t)))
            > TowerRange)"

lemma findTarget_Some_stays: "findTarget tx ty es i (Some j) b \<noteq> None"
  by (induction es arbitrary: i j b) (auto simp: Let_def)

lemma findTarget_finds:
  assumes "\<exists>e \<in> set es. \<not> HP e \<le> 0
      \<and> \<not> sqrt ((Enemy.X e - tx) * (Enemy.X e - tx) + (Enemy.Y e - ty) * (Enemy.Y e - ty)) > TowerRange"
    and "b < 0"
  shows "findTarget tx ty es i None b \<noteq> None"
  using assms
proof (induction es arbitrary: i)
  case Nil
  then show ?case by simp
next
  case (Cons e es)
  show ?case
  proof (cases "\<not> HP e \<le> 0
      \<and> \<not> sqrt ((Enemy.X e - tx) * (Enemy.X e - tx) + (Enemy.Y e - ty) * (Enemy.Y e - ty)) > TowerRange")
    case True
    have "b < int (PathIndex e)" using Cons.prems(2) by simp
    then show ?thesis using True by (simp add: Let_def findTarget_Some_stays)
  next
    case False
    then have "\<exists>e \<in> set es. \<not> HP e \<le> 0
      \<and> \<not> sqrt ((Enemy.X e - tx) * (Enemy.X e - tx) + (Enemy.Y e - ty) * (Enemy.Y e - ty)) > TowerRange"
      using Cons.prems(1) by auto
    then have "findTarget tx ty es (Suc i) None b \<noteq> None"
      using Cons.IH Cons.prems(2) by blast
    then show ?thesis using False by (auto simp: Let_def)
  qed
qed

lemma tower_cooling:
  "0 < Cooldown t \<Longrightarrow> updateTower t g = (t\<lparr>Cooldown := Cooldown t - 1\<rparr>, g)"
  by (simp add: updateTower_def)

lemma tower_cooling_silent: "0 < Cooldown t \<Longrightarrow> \<not> fires t g"
  by (simp add: fires_def tower_cooling)

lemma tower_ready_fires:
  assumes "\<not> 0 < Cooldown t" "list_ex (targetable t) (enemies g)"
  shows "fires t g"
proof -
  have "findTarget (cellCenter (Tower.X t)) (cellCenter (Tower.Y t)) (enemies g) 0 None (- 1) \<noteq> None"
    using assms(2) by (intro findTarget_finds) (auto simp: list_ex_iff targetable_def)
  then obtain i where
    "findTarget (cellCenter (Tower.X t)) (cellCenter (Tower.Y t)) (enemies g) 0 None (- 1) = Some i"
    by blast
  then show ?thesis using assms(1) by (simp add: fires_def updateTower_def Let_def)
qed

lemma fires_resets_cooldown:
  "fires t g \<Longrightarrow> Cooldown (fst (updateTower t g)) = TowerCooldown"
  by (cases "findTarget (cellCenter (Tower.X t)) (cellCenter (Tower.Y t)) (enemies g) 0 None (- 1)")
     (auto simp: fires_def updateTower_def Let_def split: if_splits)

lemma towerAfter_cooling:
  "int (length gs) \<le> Cooldown t \<Longrightarrow>
     towerAfter t gs = t\<lparr>Cooldown := Cooldown t - int (length gs)\<rparr>"
proof (induction gs arbitrary: t)
  case Nil
  then show ?case by simp
next
  case (Cons g gs)
  then have c: "0 < Cooldown t" by simp
  have "towerAfter (t\<lparr>Cooldown := Cooldown t - 1\<rparr>) gs
      = t\<lparr>Cooldown := Cooldown t - 1\<rparr>\<lparr>Cooldown := Cooldown (t\<lparr>Cooldown := Cooldown t - 1\<rparr>) - int (length gs)\<rparr>"
    using Cons.prems by (intro Cons.IH) simp
  then show ?case using c by (simp add: tower_cooling)
qed

text \<open>In a tick, \<open>updateTowers\<close> runs that loop body once on every tower of the
  list, in some game (the one the towers before it have left).\<close>

lemma updateTowers_loop_nth:
  "i < length ts \<Longrightarrow>
     \<exists>gi. fst (updateTowers_loop ts g) ! i = fst (updateTower (ts ! i) gi)"
proof (induction ts arbitrary: g i)
  case Nil
  then show ?case by simp
next
  case (Cons t ts)
  obtain t' g' where 1: "updateTower t g = (t', g')" by (cases "updateTower t g")
  obtain ts' g'' where 2: "updateTowers_loop ts g' = (ts', g'')"
    by (cases "updateTowers_loop ts g'")
  show ?case
  proof (cases i)
    case 0
    have "fst (updateTowers_loop (t # ts) g) ! 0 = fst (updateTower t g)"
      using 1 2 by simp
    then show ?thesis using 0 by auto
  next
    case (Suc j)
    then have "j < length ts" using Cons.prems by simp
    from Cons.IH [OF this, of g'] obtain gi where
      "fst (updateTowers_loop ts g') ! j = fst (updateTower (ts ! j) gi)" by blast
    then have "fst (updateTowers_loop (t # ts) g) ! Suc j = fst (updateTower ((t # ts) ! Suc j) gi)"
      using 1 2 by simp
    then show ?thesis using Suc by blast
  qed
qed

lemma updateTowers_nth:
  "i < length (towers g) \<Longrightarrow>
     \<exists>gi. towers (updateTowers g) ! i = fst (updateTower (towers g ! i) gi)"
proof -
  assume "i < length (towers g)"
  from updateTowers_loop_nth [OF this, of g] obtain gi where
    gi: "fst (updateTowers_loop (towers g) g) ! i = fst (updateTower (towers g ! i) gi)" by blast
  obtain ts' g' where "updateTowers_loop (towers g) g = (ts', g')"
    by (cases "updateTowers_loop (towers g) g")
  then show ?thesis using gi by (auto simp: updateTowers_def)
qed

text \<open>
  Claim C3 (as amended). A shot sets the cooldown of the tower to \<open>TowerCooldown\<close>, 30.
  From there the tower does not fire on any of the next 30 ticks, whatever the enemies do
  (each of these ticks only decrements the cooldown, the 30th from 1 to 0), and it fires
  again on the 31st tick after the shot if an enemy is alive and in range then.
\<close>

theorem tower_fires_again_on_31st_tick:
  "(fires t0 g0 \<longrightarrow> Cooldown (fst (updateTower t0 g0)) = TowerCooldown)
   \<and> (Cooldown t = TowerCooldown \<and> length gs = 30 \<longrightarrow>
        list_all (\<lambda>k. \<not> fires (towerAfter t (take k gs)) (gs ! k)) [0 ..< 30]
        \<and> Cooldown (towerAfter t gs) = 0
        \<and> (\<forall>g. list_ex (targetable t) (enemies g) \<longrightarrow> fires (towerAfter t gs) g))"
proof -
  have B: "list_all (\<lambda>k. \<not> fires (towerAfter t (take k gs)) (gs ! k)) [0 ..< 30]
        \<and> Cooldown (towerAfter t gs) = 0
        \<and> (\<forall>g. list_ex (targetable t) (enemies g) \<longrightarrow> fires (towerAfter t gs) g)"
    if h: "Cooldown t = TowerCooldown" "length gs = 30"
  proof -
    have c30: "Cooldown t = 30" using h(1) by (simp add: TowerCooldown_def)
    have quiet: "\<not> fires (towerAfter t (take k gs)) (gs ! k)" if k: "k < 30" for k
    proof -
      have "towerAfter t (take k gs) = t\<lparr>Cooldown := Cooldown t - int (length (take k gs))\<rparr>"
        using k h(2) c30 by (intro towerAfter_cooling) simp
      then have "Cooldown (towerAfter t (take k gs)) = 30 - int k"
        using k h(2) c30 by simp
      then have "0 < Cooldown (towerAfter t (take k gs))" using k by simp
      then show ?thesis by (rule tower_cooling_silent)
    qed
    have after: "towerAfter t gs = t\<lparr>Cooldown := 0\<rparr>"
      using towerAfter_cooling [of gs t] h(2) c30 by simp
    have loud: "fires (towerAfter t gs) g" if "list_ex (targetable t) (enemies g)" for g
      unfolding after using that by (intro tower_ready_fires) (simp_all add: targetable_def list_ex_iff)
    show ?thesis using quiet after loud by (simp add: list_all_iff)
  qed
  show ?thesis using fires_resets_cooldown B by blast
qed

text \<open>The tower of \<open>duel1\<close>, which has just fired, and an enemy that stays in range
  with its health above zero.\<close>

definition siege :: Game where
  "siege = duel1
     \<lparr>enemies := [\<lparr>Enemy.X = 220, Enemy.Y = 220, PathIndex = 3,
                   Path = [Point 5 3, Point 5 4, Point 5 5, Point 5 6, Point 5 7], HP = 100\<rparr>]\<rparr>"

definition tower30 :: Tower where
  "tower30 = \<lparr>Tower.X = 6, Tower.Y = 5, Cooldown = 30\<rparr>"

lemma siege_targetable: "list_ex (targetable tower30) (enemies siege)"
  by (simp add: siege_def targetable_def tower30_def cellCenter_def CellSize_def
      TowerRange_def sqrt_1600)

theorem tower_fires_again_on_31st_tick_witness:
  "\<not> fires (towerAfter tower30 (take 7 (replicate 30 siege))) (replicate 30 siege ! 7)
   \<and> Cooldown (towerAfter tower30 (replicate 30 siege)) = 0
   \<and> fires (towerAfter tower30 (replicate 30 siege)) siege"
proof -
  have h: "Cooldown tower30 = TowerCooldown \<and> length (replicate 30 siege) = 30"
    by (simp add: tower30_def TowerCooldown_def)
  have B: "list_all (\<lambda>k. \<not> fires (towerAfter tower30 (take k (replicate 30 siege)))
                             (replicate 30 siege ! k)) [0 ..< 30]
        \<and> Cooldown (towerAfter tower30 (replicate 30 siege)) = 0
        \<and> (\<forall>g. list_ex (targetable tower30) (enemies g)
               \<longrightarrow> fires (towerAfter tower30 (replicate 30 siege)) g)"
    by (rule mp [OF conjunct2 [OF tower_fires_again_on_31st_tick] h])
  have "(7::nat) \<in> set [0 ..< 30]" by simp
  then have 1: "\<not> fires (towerAfter tower30 (take 7 (replicate 30 siege))) (replicate 30 siege ! 7)"
    using B unfolding list_all_iff by blast
  have 2: "Cooldown (towerAfter tower30 (replicate 30 siege)) = 0" using B by blast
  have 3: "fires (towerAfter tower30 (replicate 30 siege)) siege"
    using B siege_targetable by blast
  show ?thesis by (intro conjI) (rule 1, rule 2, rule 3)
qed

text \<open>On the 30th tick after the shot the tower does not fire, with an enemy alive and
  in range: that tick takes the cooldown from 1 to 0. It fires on the 31st.\<close>

theorem tower_period_counterexample:
  "Cooldown tower30 = TowerCooldown
   \<and> list_ex (targetable tower30) (enemies siege)
   \<and> Cooldown (towerAfter tower30 (replicate 29 siege)) = 1
   \<and> \<not> fires (towerAfter tower30 (replicate 29 siege)) siege
   \<and> fires (towerAfter tower30 (replicate 30 siege)) siege"
proof -
  have a29: "towerAfter tower30 (replicate 29 siege) = tower30\<lparr>Cooldown := 1\<rparr>"
    using towerAfter_cooling [of "replicate 29 siege" tower30] by (simp add: tower30_def)
  have a30: "towerAfter tower30 (replicate 30 siege) = tower30\<lparr>Cooldown := 0\<rparr>"
    using towerAfter_cooling [of "replicate 30 siege" tower30] by (simp add: tower30_def)
  have 1: "Cooldown tower30 = TowerCooldown" by (simp add: tower30_def TowerCooldown_def)
  have 3: "Cooldown (towerAfter tower30 (replicate 29 siege)) = 1" by (simp add: a29)
  have 4: "\<not> fires (towerAfter tower30 (replicate 29 siege)) siege"
    unfolding a29 by (rule tower_cooling_silent) simp
  have "list_ex (targetable (tower30\<lparr>Cooldown := 0\<rparr>)) (enemies siege)"
    using siege_targetable by (simp add: targetable_def list_ex_iff)
  then have 5: "fires (towerAfter tower30 (replicate 30 siege)) siege"
    unfolding a30 by (intro tower_ready_fires) simp_all
  show ?thesis by (intro conjI) (rule 1, rule siege_targetable, rule 3, rule 4, rule 5)
qed

section \<open>The resource counter\<close>

text \<open>The states of a session: a new game, and from a state any tick of \<open>Update\<close>,
  with any input (cursor, clicks that place or remove towers, the R key that resets).\<close>

inductive reachable :: "Game \<Rightarrow> bool" where
  new: "NewGame = Some g \<Longrightarrow> reachable g"
| tick: "reachable g \<Longrightarrow> Update inp g = Some g' \<Longrightarrow> reachable g'"

lemma placed_not_removed: "placed inp g \<Longrightarrow> \<not> removed inp g"
  by (auto simp: placed_def removed_def)

lemma Update_resources:
  assumes "state g = StatePlaying"
  shows "\<exists>g'. Update inp g = Some g'
     \<and> resources g' =
         resources g + KillReward * int (length (filter (\<lambda>e. HP e \<le> 0) (enemies g)))
         - (if placed inp (Update_passes inp g) then TowerCost else 0)
         + (if removed inp (Update_passes inp g) then TowerCost div 2 else 0)"
proof -
  let ?p = "Update_passes inp g"
  from Update_clicks_returns [of inp ?p] obtain g' where
    g': "Update_clicks inp ?p = Some g'"
      "resources g' =
         (if placed inp ?p then resources ?p - TowerCost
          else if removed inp ?p then resources ?p + TowerCost div 2
          else resources ?p)" by blast
  have r: "resources ?p =
      resources g + KillReward * int (length (filter (\<lambda>e. HP e \<le> 0) (enemies g)))"
    by (simp add: Update_passes_def Update_waves_dead)
  have "Update inp g = Some g'" using assms g'(1) by (simp add: Update_playing)
  then show ?thesis using g'(2) r placed_not_removed [of inp ?p] by auto
qed

lemma NewGame_resources: "NewGame = Some g \<Longrightarrow> resources g = StartingResource"
proof -
  assume a: "NewGame = Some g"
  from NewGame_returns obtain g0 where g0: "NewGame = Some g0" "resources g0 = StartingResource"
    by blast
  have "Some g0 = Some g" using g0(1) a by (rule trans [OF sym])
  then have "g0 = g" by (simp only: option.inject)
  then show ?thesis using g0(2) by (simp only:)
qed

lemma Update_resources_nonneg:
  assumes "0 \<le> resources g" "Update inp g = Some g'"
  shows "0 \<le> resources g'"
proof (cases "state g = StatePlaying")
  case True
  from Update_resources [OF True, of inp] assms(2) have
    r: "resources g' =
         resources g + KillReward * int (length (filter (\<lambda>e. HP e \<le> 0) (enemies g)))
         - (if placed inp (Update_passes inp g) then TowerCost else 0)
         + (if removed inp (Update_passes inp g) then TowerCost div 2 else 0)"
    by auto
  have p: "resources (Update_passes inp g) =
      resources g + KillReward * int (length (filter (\<lambda>e. HP e \<le> 0) (enemies g)))"
    by (simp add: Update_passes_def Update_waves_dead)
  have k: "0 \<le> KillReward * int (length (filter (\<lambda>e. HP e \<le> 0) (enemies g)))"
    by (simp add: KillReward_def)
  show ?thesis
  proof (cases "placed inp (Update_passes inp g)")
    case True
    then have "TowerCost \<le> resources (Update_passes inp g)" by (simp add: placed_def)
    then show ?thesis using r p True placed_not_removed [OF True] by simp
  next
    case False
    then show ?thesis using r k assms(1) by (simp add: TowerCost_def)
  qed
next
  case False
  show ?thesis
  proof (cases "keyR inp")
    case True
    then have "NewGame = Some g'" using False assms(2) by (simp add: Update_def)
    then show ?thesis using NewGame_resources by (simp add: StartingResource_def)
  next
    case nk: False
    then have "g' = g" using False assms(2) by (simp add: Update_def)
    then show ?thesis using assms(1) by simp
  qed
qed

text \<open>
  Claim C9. In every state reachable from a new game by ticks with any inputs, the
  resource counter is non-negative. A new game (also the one a reset makes) starts it at
  \<open>StartingResource\<close>; a tick outside the playing state leaves the game as it is or
  resets it; a playing tick changes the counter by exactly: plus \<open>KillReward\<close> for each
  dead enemy removed, minus \<open>TowerCost\<close> if a tower is placed (which needs at least
  \<open>TowerCost\<close> resources), plus the refund \<open>TowerCost div 2\<close> if a tower is removed.
\<close>

theorem resources_never_negative:
  "(reachable g \<longrightarrow> 0 \<le> resources g)
   \<and> (\<forall>g0. NewGame = Some g0 \<longrightarrow> resources g0 = StartingResource)
   \<and> (state g \<noteq> StatePlaying \<longrightarrow> Update inp g = (if keyR inp then NewGame else Some g))
   \<and> (state g = StatePlaying \<longrightarrow>
        (\<exists>g'. Update inp g = Some g'
           \<and> resources g' =
               resources g + KillReward * int (length (filter (\<lambda>e. HP e \<le> 0) (enemies g)))
               - (if placed inp (Update_passes inp g) then TowerCost else 0)
               + (if removed inp (Update_passes inp g) then TowerCost div 2 else 0)))
   \<and> (placed inp (Update_passes inp g) \<longrightarrow> TowerCost \<le> resources (Update_passes inp g))"
proof -
  have 1: "0 \<le> resources g" if "reachable g"
    using that
  proof (induction rule: reachable.induct)
    case (new g)
    then show ?case using NewGame_resources by (simp add: StartingResource_def)
  next
    case (tick g inp g')
    then show ?case using Update_resources_nonneg by blast
  qed
  have 2: "\<forall>g0. NewGame = Some g0 \<longrightarrow> resources g0 = StartingResource"
    using NewGame_resources by blast
  have 3: "state g \<noteq> StatePlaying \<longrightarrow> Update inp g = (if keyR inp then NewGame else Some g)"
    by (simp add: Update_def)
  have 5: "placed inp (Update_passes inp g) \<longrightarrow> TowerCost \<le> resources (Update_passes inp g)"
    by (simp add: placed_def)
  show ?thesis using 1 2 3 5 Update_resources [of g inp] by blast
qed

theorem resources_never_negative_witness:
  "\<exists>g0 g1. NewGame = Some g0 \<and> resources g0 = 100
     \<and> Update (clickAt 130 170 True False) g0 = Some g1
     \<and> reachable g1 \<and> 0 \<le> resources g1"
proof -
  let ?i = "clickAt 130 170 True False"
  from NewGame_returns obtain g0 where g0: "NewGame = Some g0" "state g0 = StatePlaying"
    by blast
  have r0: "resources g0 = StartingResource"
    using conjunct1 [OF conjunct2 [OF resources_never_negative [of g0 ?i]]] g0(1) by blast
  from Update_returns [of ?i g0] obtain g1 where g1: "Update ?i g0 = Some g1" by blast
  have re: "reachable g1" using reachable.new [OF g0(1)] g1 by (rule reachable.tick)
  have r1: "0 \<le> resources g1"
    using conjunct1 [OF resources_never_negative [of g1 ?i]] re by blast
  have r100: "resources g0 = 100" using r0 by (simp add: StartingResource_def)
  show ?thesis
    by (rule exI [of _ g0], rule exI [of _ g1], intro conjI)
       (rule g0(1), rule r100, rule g1, rule re, rule r1)
qed

section \<open>The counters stay small\<close>

text \<open>The number of tower cells of a grid, and the enemies that the waves after wave
  \<open>w\<close> still bring: wave \<open>v\<close> has \<open>EnemiesPerWave + v\<close> enemies, for \<open>v\<close> from 2 to 5.\<close>

definition towerTiles :: "(int \<Rightarrow> int \<Rightarrow> TileType) \<Rightarrow> nat" where
  "towerTiles gr =
     card {(x, y). 0 \<le> x \<and> x < GridWidth \<and> 0 \<le> y \<and> y < GridHeight \<and> gr y x = TileTower}"

definition laterWaves :: "int \<Rightarrow> int" where
  "laterWaves w = (if w \<le> 1 then 34 else if w = 2 then 27 else if w = 3 then 19
                   else if w = 4 then 10 else 0)"

definition counters_ok :: "Game \<Rightarrow> bool" where
  "counters_ok g =
     (0 \<le> resources g
      \<and> resources g + 12 * int (towerTiles (grid g)) \<le> 100 + 10 * totalKills g
      \<and> 0 \<le> totalKills g
      \<and> 1 \<le> currentWave g \<and> currentWave g \<le> 5
      \<and> 0 \<le> enemiesThisWave g
      \<and> totalKills g + int (length (enemies g)) + enemiesThisWave g
           + laterWaves (currentWave g) \<le> 39
      \<and> 0 \<le> waveDelay g \<and> waveDelay g \<le> 300
      \<and> 0 \<le> spawnTimer g \<and> spawnTimer g \<le> 40)"

lemma finite_cells:
  "finite {(x, y). 0 \<le> x \<and> x < GridWidth \<and> 0 \<le> y \<and> y < GridHeight \<and> P x y}"
proof -
  have "{(x, y). 0 \<le> x \<and> x < GridWidth \<and> 0 \<le> y \<and> y < GridHeight \<and> P x y}
      \<subseteq> {0 ..< GridWidth} \<times> {0 ..< GridHeight}" by auto
  then show ?thesis by (rule finite_subset) simp
qed

lemma towerTiles_place:
  assumes "0 \<le> x" "x < GridWidth" "0 \<le> y" "y < GridHeight" "gr y x \<noteq> TileTower"
  shows "towerTiles (gr(y := (gr y)(x := TileTower))) = Suc (towerTiles gr)"
proof -
  let ?S = "{(x, y). 0 \<le> x \<and> x < GridWidth \<and> 0 \<le> y \<and> y < GridHeight \<and> gr y x = TileTower}"
  have "{(x', y'). 0 \<le> x' \<and> x' < GridWidth \<and> 0 \<le> y' \<and> y' < GridHeight
          \<and> (gr(y := (gr y)(x := TileTower))) y' x' = TileTower} = insert (x, y) ?S"
    using assms by (auto split: if_splits)
  moreover have "(x, y) \<notin> ?S" using assms(5) by simp
  ultimately show ?thesis
    unfolding towerTiles_def using finite_cells [of "\<lambda>x y. gr y x = TileTower"] by simp
qed

lemma towerTiles_remove:
  assumes "0 \<le> x" "x < GridWidth" "0 \<le> y" "y < GridHeight" "gr y x = TileTower"
  shows "Suc (towerTiles (gr(y := (gr y)(x := TileGround)))) = towerTiles gr"
proof -
  let ?S = "{(x, y). 0 \<le> x \<and> x < GridWidth \<and> 0 \<le> y \<and> y < GridHeight \<and> gr y x = TileTower}"
  have "{(x', y'). 0 \<le> x' \<and> x' < GridWidth \<and> 0 \<le> y' \<and> y' < GridHeight
          \<and> (gr(y := (gr y)(x := TileGround))) y' x' = TileTower} = ?S - {(x, y)}"
    using assms by (auto split: if_splits)
  then have 1: "towerTiles (gr(y := (gr y)(x := TileGround))) = card (?S - {(x, y)})"
    by (simp only: towerTiles_def)
  have 2: "(x, y) \<in> ?S" using assms by simp
  have 3: "finite ?S" using finite_cells [of "\<lambda>x y. gr y x = TileTower"] .
  have "Suc (card (?S - {(x, y)})) = card ?S" using 3 2 by (rule card_Suc_Diff1)
  then show ?thesis using 1 by (simp only: towerTiles_def)
qed

lemma counters_ok_waves: "counters_ok g \<Longrightarrow> counters_ok (Update_waves g)"
  unfolding counters_ok_def Update_waves_def spawnEnemy_def Let_def laterWaves_def
  by (auto simp: TotalWaves_def EnemiesPerWave_def WaveDelay_def SpawnInterval_def)

lemma length_filter_split:
  "length (filter P xs) + length (filter (\<lambda>x. \<not> P x \<and> Q x) xs) \<le> length xs"
  by (induction xs) auto

lemma counters_ok_enemies: "counters_ok g \<Longrightarrow> counters_ok (updateEnemies g)"
proof -
  assume a: "counters_ok g"
  have "int (length (filter (\<lambda>e. HP e \<le> 0) (enemies g)))
      + int (length (filter (\<lambda>e. \<not> HP e \<le> 0 \<and> PathIndex e < length (Path e)) (enemies g)))
      \<le> int (length (enemies g))"
    using length_filter_split [of "\<lambda>e. HP e \<le> 0" "enemies g" "\<lambda>e. PathIndex e < length (Path e)"]
    by linarith
  then show ?thesis
    using a unfolding counters_ok_def by (simp add: KillReward_def)
qed

lemma counters_ok_passes: "counters_ok g \<Longrightarrow> counters_ok (Update_passes inp g)"
proof -
  assume "counters_ok g"
  then have "counters_ok (updateEnemies (Update_waves g))"
    by (intro counters_ok_enemies counters_ok_waves)
  then show ?thesis
    unfolding counters_ok_def Update_passes_def by simp
qed

lemma Update_hover_range:
  "hoverValid (Update_hover inp g) \<Longrightarrow>
     0 \<le> hoverX (Update_hover inp g) \<and> hoverX (Update_hover inp g) < GridWidth
     \<and> 0 \<le> hoverY (Update_hover inp g) \<and> hoverY (Update_hover inp g) < GridHeight"
  by (auto simp: Update_hover_def Let_def split: if_splits)

lemma Update_clicks_grid:
  "\<exists>g'. Update_clicks inp g = Some g'
     \<and> grid g' =
         (if placed inp g
          then (grid g)(hoverY g := (grid g (hoverY g))(hoverX g := TileTower))
          else if removed inp g
          then (grid g)(hoverY g := (grid g (hoverY g))(hoverX g := TileGround))
          else grid g)"
proof -
  have re: "\<exists>g'. Option.bind (recalculatePath g2) recalculateEnemyPaths = Some g'
     \<and> grid g' = grid g2" for g2
    using regrid_returns [of g2] by auto
  show ?thesis
  proof (cases "placed inp g")
    case True
    then have "Update_clicks inp g =
        Option.bind (recalculatePath (snd (addTower (hoverX g) (hoverY g) g))) recalculateEnemyPaths"
      by (simp add: Update_clicks_eq)
    moreover have "TowerCost \<le> resources g" using True by (simp add: placed_def)
    ultimately show ?thesis
      using re [of "snd (addTower (hoverX g) (hoverY g) g)"] True
      by (auto simp: addTower_def)
  next
    case np: False
    show ?thesis
    proof (cases "removed inp g")
      case True
      then have "Update_clicks inp g =
          Option.bind (recalculatePath (removeTower (hoverX g) (hoverY g) g)) recalculateEnemyPaths"
        using np by (simp add: Update_clicks_eq)
      then show ?thesis
        using re [of "removeTower (hoverX g) (hoverY g) g"] True np
        by (auto simp: removeTower_def)
    next
      case False
      then show ?thesis using np by (simp add: Update_clicks_eq)
    qed
  qed
qed

lemma counters_ok_clicks:
  assumes ok: "counters_ok g"
    and hv: "hoverValid g \<longrightarrow> 0 \<le> hoverX g \<and> hoverX g < GridWidth
               \<and> 0 \<le> hoverY g \<and> hoverY g < GridHeight"
    and up: "Update_clicks inp g = Some g'"
  shows "counters_ok g'"
proof -
  from Update_clicks_returns [of inp g] up have
    f: "totalKills g' = totalKills g" "waveDelay g' = waveDelay g"
      "enemiesThisWave g' = enemiesThisWave g" "currentWave g' = currentWave g"
      "spawnTimer g' = spawnTimer g" "length (enemies g') = length (enemies g)"
      "resources g' =
         (if placed inp g then resources g - TowerCost
          else if removed inp g then resources g + TowerCost div 2
          else resources g)"
    by auto
  from Update_clicks_grid [of inp g] up have
    gr: "grid g' =
         (if placed inp g
          then (grid g)(hoverY g := (grid g (hoverY g))(hoverX g := TileTower))
          else if removed inp g
          then (grid g)(hoverY g := (grid g (hoverY g))(hoverX g := TileGround))
          else grid g)"
    by auto
  show ?thesis
  proof (cases "placed inp g")
    case True
    then have c: "TowerCost \<le> resources g" "grid g (hoverY g) (hoverX g) \<noteq> TileTower"
      and r: "0 \<le> hoverX g" "hoverX g < GridWidth" "0 \<le> hoverY g" "hoverY g < GridHeight"
      using hv by (auto simp: placed_def)
    have "towerTiles (grid g') = Suc (towerTiles (grid g))"
      using gr True towerTiles_place [of "hoverX g" "hoverY g" "grid g"] r c(2) by simp
    then show ?thesis
      using ok f True c(1) unfolding counters_ok_def by (simp add: TowerCost_def)
  next
    case np: False
    show ?thesis
    proof (cases "removed inp g")
      case True
      then have c: "grid g (hoverY g) (hoverX g) = TileTower"
        and r: "0 \<le> hoverX g" "hoverX g < GridWidth" "0 \<le> hoverY g" "hoverY g < GridHeight"
        using hv by (auto simp: removed_def)
      have "Suc (towerTiles (grid g')) = towerTiles (grid g)"
        using gr True np towerTiles_remove [of "hoverX g" "hoverY g" "grid g"] r c by simp
      then have "int (towerTiles (grid g)) = int (towerTiles (grid g')) + 1" by linarith
      then show ?thesis
        using ok f True np unfolding counters_ok_def by (simp add: TowerCost_def)
    next
      case False
      then show ?thesis using ok f gr np unfolding counters_ok_def by simp
    qed
  qed
qed

lemma counters_ok_NewGame: "NewGame = Some g \<Longrightarrow> counters_ok g"
proof -
  assume a: "NewGame = Some g"
  from NewGame_returns obtain g0 where g0: "NewGame = Some g0" "resources g0 = StartingResource"
    "totalKills g0 = 0" "enemies g0 = []" "currentWave g0 = 1"
    "enemiesThisWave g0 = EnemiesPerWave" "waveDelay g0 = 300" "spawnTimer g0 = 0"
    "grid g0 = NewGame_grid"
    by blast
  have "Some g0 = Some g" using g0(1) a by (rule trans [OF sym])
  then have e: "g0 = g" by (simp only: option.inject)
  have "{(x, y). 0 \<le> x \<and> x < GridWidth \<and> 0 \<le> y \<and> y < GridHeight
          \<and> NewGame_grid y x = TileTower} = {}"
    by (auto simp: NewGame_grid_def split: if_splits)
  then have t: "towerTiles NewGame_grid = 0" by (simp only: towerTiles_def card.empty)
  show ?thesis
    using g0(2-) t unfolding e counters_ok_def
    by (simp add: StartingResource_def EnemiesPerWave_def laterWaves_def)
qed

lemma counters_ok_Update:
  assumes "counters_ok g" "Update inp g = Some g'"
  shows "counters_ok g'"
proof (cases "state g = StatePlaying")
  case True
  let ?p = "Update_passes inp g"
  have 1: "counters_ok ?p" using assms(1) by (rule counters_ok_passes)
  have 2: "hoverValid ?p \<longrightarrow> 0 \<le> hoverX ?p \<and> hoverX ?p < GridWidth
               \<and> 0 \<le> hoverY ?p \<and> hoverY ?p < GridHeight"
    unfolding Update_passes_def using Update_hover_range by blast
  have 3: "Update_clicks inp ?p = Some g'" using assms(2) True by (simp add: Update_playing)
  show ?thesis using counters_ok_clicks [OF 1 2 3] .
next
  case False
  show ?thesis
  proof (cases "keyR inp")
    case True
    then have "NewGame = Some g'" using False assms(2) by (simp add: Update_def)
    then show ?thesis by (rule counters_ok_NewGame)
  next
    case nk: False
    then have "g' = g" using False assms(2) by (simp add: Update_def)
    then show ?thesis using assms(1) by simp
  qed
qed

text \<open>The counters of every reachable state are small, so that none of the additions
  and subtractions of the source on them can leave the range of a 64-bit \<open>int\<close>.\<close>

lemma reachable_bounds:
  assumes "reachable g"
  shows "0 \<le> resources g \<and> resources g \<le> 490
     \<and> 0 \<le> totalKills g \<and> totalKills g \<le> 39
     \<and> length (enemies g) \<le> 39
     \<and> 1 \<le> currentWave g \<and> currentWave g \<le> 5
     \<and> 0 \<le> enemiesThisWave g \<and> enemiesThisWave g \<le> 39
     \<and> 0 \<le> waveDelay g \<and> waveDelay g \<le> 300
     \<and> 0 \<le> spawnTimer g \<and> spawnTimer g \<le> 40"
proof -
  have ok: "counters_ok g"
    using assms
  proof (induction rule: reachable.induct)
    case (new g)
    then show ?case by (rule counters_ok_NewGame)
  next
    case (tick g inp g')
    then show ?case using counters_ok_Update by blast
  qed
  have l: "0 \<le> laterWaves (currentWave g)" by (simp add: laterWaves_def)
  show ?thesis using ok l unfolding counters_ok_def by auto
qed

end
